theory Spec2Isabelle
  imports Main "HOL-Library.Multiset"
begin

section \<open>Configuration constants (internal/config/constants.go)\<close>

definition EnterpriseType :: string where
  "EnterpriseType = ''Enterprise''"

definition OrganizationType :: string where
  "OrganizationType = ''Organization''"

section \<open>Organization names\<close>

text \<open>
  \<^verbatim>\<open>CreateOrg\<close> (internal/github/orgs.go) computes the login of the organization it
  asks the API to create as
  \<^verbatim>\<open>"ghas-labs-" + ctx.Value(config.LabDateKey).(string) + "-" + user\<close>;
  the destroy workers (\<^verbatim>\<open>DestroyOrgResourcesWithReport\<close>, internal/services/lab_service.go)
  compute the login of the organization to delete as
  \<^verbatim>\<open>"ghas-labs-" + labDate + "-" + user\<close>.
\<close>

definition CreateOrg_orgName :: "string \<Rightarrow> string \<Rightarrow> string" where
  "CreateOrg_orgName labDate user = ''ghas-labs-'' @ labDate @ ''-'' @ user"

definition DestroyOrg_orgName :: "string \<Rightarrow> string \<Rightarrow> string" where
  "DestroyOrg_orgName labDate user = ''ghas-labs-'' @ labDate @ ''-'' @ user"

section \<open>The token cache of the authorization provider\<close>

text \<open>
  Time is counted in seconds; \<^verbatim>\<open>time.Now().Before(t)\<close> is \<open>now < t\<close> and
  \<^verbatim>\<open>time.Now().Add(55 * time.Minute)\<close> is \<open>now + 55 * 60\<close>.
\<close>

type_synonym time = nat

record cachedToken =
  token :: string
  expires :: time

type_synonym tokenCache = "string \<rightharpoonup> cachedToken"

text \<open>
  The values that the provider reads from its context. A key that was never set, or
  whose value is not a string, is \<open>None\<close> (the \<^verbatim>\<open>ok\<close> of a type assertion is false).
\<close>

record authCtx =
  ctx_token :: "string option"
  ctx_org :: "string option"
  ctx_appID :: "string option"
  ctx_privateKey :: "string option"
  ctx_baseURL :: "string option"

text \<open>
  The token service is outside the provider: \<^verbatim>\<open>GetInstallationTokenForOrg(orgName)\<close> and
  \<^verbatim>\<open>GetInstallationToken(targetType)\<close> are the two exchanges it offers. Their answers are
  given by a function of the number of exchanges made before and of the scope asked for,
  so that an exchange may fail once and succeed later.
\<close>

datatype scope = ForOrg string | ForType string

type_synonym exchange = "nat \<Rightarrow> scope \<Rightarrow> string + string"

datatype auth_error =
    ExchangeError string
  | MissingAppCredentials

text \<open>
  The state that a lookup can change: the global cache, and the list of the exchanges
  requested so far (oldest first), which records whether a lookup went to the token service.
\<close>

record authState =
  tokens :: tokenCache
  exchanges :: "scope list"

definition orgNameOf :: "authCtx \<Rightarrow> string option" where
  "orgNameOf ctx =
     (case ctx_org ctx of
        Some orgName \<Rightarrow> if orgName \<noteq> [] then Some orgName else None
      | None \<Rightarrow> None)"

definition cacheKey :: "string \<Rightarrow> authCtx \<Rightarrow> string" where
  "cacheKey targetType ctx =
     (if targetType = OrganizationType then
        (case orgNameOf ctx of
           Some orgName \<Rightarrow> targetType @ '':'' @ orgName
         | None \<Rightarrow> targetType)
      else targetType)"

definition scopeOf :: "string \<Rightarrow> authCtx \<Rightarrow> scope" where
  "scopeOf targetType ctx =
     (if targetType = OrganizationType then
        (case orgNameOf ctx of
           Some orgName \<Rightarrow> ForOrg orgName
         | None \<Rightarrow> ForType targetType)
      else ForType targetType)"

definition cachedLive :: "tokenCache \<Rightarrow> string \<Rightarrow> time \<Rightarrow> string option" where
  "cachedLive c k now =
     (case c k of
        Some cached \<Rightarrow> if now < expires cached then Some (token cached) else None
      | None \<Rightarrow> None)"

definition hasAppCredentials :: "authCtx \<Rightarrow> bool" where
  "hasAppCredentials ctx \<longleftrightarrow>
     ctx_appID ctx \<noteq> None \<and> ctx_privateKey ctx \<noteq> None \<and> ctx_baseURL ctx \<noteq> None"

text \<open>
  The part of the provider that runs under the write lock: the second check of the cache
  at time \<open>t2\<close>, then the exchange, then the store with the time \<open>t3\<close> read after the
  exchange. The three unchecked type assertions that build the token service panic when
  an app credential is missing from the context.
\<close>

definition authProv_locked ::
  "exchange \<Rightarrow> authCtx \<Rightarrow> string \<Rightarrow> time \<Rightarrow> time \<Rightarrow> authState \<Rightarrow> (auth_error + string) \<times> authState" where
  "authProv_locked ex ctx targetType t2 t3 s =
     (let k = cacheKey targetType ctx in
      case cachedLive (tokens s) k t2 of
        Some tok \<Rightarrow> (Inr (''Bearer '' @ tok), s)
      | None \<Rightarrow>
          if \<not> hasAppCredentials ctx then (Inl MissingAppCredentials, s)
          else
            let sc = scopeOf targetType ctx;
                s1 = s\<lparr>exchanges := exchanges s @ [sc]\<rparr>
            in (case ex (length (exchanges s)) sc of
                  Inl e \<Rightarrow> (Inl (ExchangeError e), s1)
                | Inr tokenStr \<Rightarrow>
                    (Inr (''Bearer '' @ tokenStr),
                     s1\<lparr>tokens := (tokens s1)(k \<mapsto> \<lparr>token = tokenStr, expires = t3 + 55 * 60\<rparr>)\<rparr>)))"

text \<open>
  The provider built by \<^verbatim>\<open>NewGithubStyleTransport\<close>: the static token first, then the
  check of the cache under the read lock at time \<open>t1\<close>, then the locked part. The cache
  is the same in both parts: no other lookup writes between the two locks.
\<close>

definition authProv ::
  "exchange \<Rightarrow> authCtx \<Rightarrow> string \<Rightarrow> time \<Rightarrow> time \<Rightarrow> time \<Rightarrow> authState \<Rightarrow> (auth_error + string) \<times> authState" where
  "authProv ex ctx targetType t1 t2 t3 s =
     (let viaCache =
        (case cachedLive (tokens s) (cacheKey targetType ctx) t1 of
           Some tok \<Rightarrow> (Inr (''Bearer '' @ tok), s)
         | None \<Rightarrow> authProv_locked ex ctx targetType t2 t3 s)
      in case ctx_token ctx of
           Some tk \<Rightarrow> if tk \<noteq> [] then (Inr (''Bearer '' @ tk), s) else viaCache
         | None \<Rightarrow> viaCache)"

section \<open>Validation of user names (internal/github/users.go)\<close>

text \<open>
  What one validation goroutine meets: the context already done, a request that cannot be
  built, a transport error, or a response with a status code.
\<close>

datatype validation_outcome =
    CtxDone
  | RequestError string
  | DoError string
  | StatusCode nat

datatype validation_error =
    CtxErr
  | NewRequestErr string
  | ClientErr string
  | UnexpectedStatus nat

record validationResult =
  username :: string
  valid :: bool
  err :: "validation_error option"

definition validateUser :: "string \<Rightarrow> validation_outcome \<Rightarrow> validationResult" where
  "validateUser user oc =
     (case oc of
        CtxDone \<Rightarrow> \<lparr>username = user, valid = False, err = Some CtxErr\<rparr>
      | RequestError e \<Rightarrow> \<lparr>username = user, valid = False, err = Some (NewRequestErr e)\<rparr>
      | DoError e \<Rightarrow> \<lparr>username = user, valid = False, err = Some (ClientErr e)\<rparr>
      | StatusCode c \<Rightarrow>
          if c = 404 then \<lparr>username = user, valid = False, err = None\<rparr>
          else if c \<noteq> 200 then \<lparr>username = user, valid = False, err = Some (UnexpectedStatus c)\<rparr>
          else \<lparr>username = user, valid = True, err = None\<rparr>)"

record UserValidationResult =
  ValidUsers :: "string list"
  InvalidUsers :: "string list"

text \<open>
  The loop over the result channel: a valid result sets the user's entry of
  \<^verbatim>\<open>validationMap\<close>, an invalid one is appended to \<^verbatim>\<open>invalidUsers\<close>. Reading a key that
  the Go map does not hold gives \<^verbatim>\<open>false\<close>.
\<close>

definition collectStep ::
  "(string \<rightharpoonup> bool) \<times> string list \<Rightarrow> validationResult \<Rightarrow> (string \<rightharpoonup> bool) \<times> string list" where
  "collectStep acc r =
     (case acc of (validationMap, invalidUsers) \<Rightarrow>
        if valid r then (validationMap(username r \<mapsto> True), invalidUsers)
        else (validationMap, invalidUsers @ [username r]))"

definition collectResults :: "validationResult list \<Rightarrow> (string \<rightharpoonup> bool) \<times> string list" where
  "collectResults rs = foldl collectStep (Map.empty, []) rs"

definition lookupBool :: "(string \<rightharpoonup> bool) \<Rightarrow> string \<Rightarrow> bool" where
  "lookupBool m k = (case m k of Some b \<Rightarrow> b | None \<Rightarrow> False)"

text \<open>
  One goroutine is started per position of \<open>usernames\<close>; \<open>outcome i\<close> is what the
  goroutine of position \<open>i\<close> meets, and \<open>arrival\<close> lists the positions in the order in
  which their results reach the channel.
\<close>

definition ValidateAndFilterUsers ::
  "string list \<Rightarrow> (nat \<Rightarrow> validation_outcome) \<Rightarrow> nat list \<Rightarrow> string + UserValidationResult" where
  "ValidateAndFilterUsers usernames outcome arrival =
     (if length usernames = 0 then Inr \<lparr>ValidUsers = [], InvalidUsers = []\<rparr>
      else
        case collectResults (map (\<lambda>i. validateUser (usernames ! i) (outcome i)) arrival) of
          (validationMap, invalidUsers) \<Rightarrow>
            let validUsers = filter (lookupBool validationMap) usernames
            in if length validUsers = 0 then Inl ''no valid users found after validation''
               else Inr \<lparr>ValidUsers = validUsers, InvalidUsers = invalidUsers\<rparr>)"

section \<open>Provisioning one identity (the body of the loop of ProvisionOrgResources)\<close>

text \<open>
  Modelled from the spec: the declarations of \<^verbatim>\<open>Organization\<close>, \<^verbatim>\<open>Repository\<close> and
  \<^verbatim>\<open>util.RepoConfig\<close> are not among the sources. The records below hold the fields that
  the code reads or writes: the organization's id, login and name (the fields of the
  GraphQL selection), the repository's full name and URL, and the template reference with
  its flag.
\<close>

record Organization =
  org_ID :: string
  Login :: string
  org_Name :: string

record Repository =
  FullName :: string
  HTMLURL :: string

record RepoConfig =
  Template :: string
  IncludeAllBranches :: bool

record RepoReport =
  repo_Name :: string
  repo_Status :: string
  repo_Error :: string
  repo_URL :: string

record ProvisionResult =
  User :: string
  OrgName :: string
  Status :: string
  Error :: string
  Repos :: "RepoReport list"
  CompletedAt :: time

text \<open>
  The remote operations, with their errors as the text that \<^verbatim>\<open>%v\<close> prints. The repository
  creation is asked once per position of the template list, so its answer may depend on
  the position.
\<close>

record remote =
  CreateOrg :: "string \<Rightarrow> string + Organization"
  InstallAppOnOrg :: "string \<Rightarrow> string option"
  AddOrgMember :: "string \<Rightarrow> string \<Rightarrow> string \<Rightarrow> string option"
  CreateRepoFromTemplate :: "Organization \<Rightarrow> nat \<Rightarrow> string \<Rightarrow> bool \<Rightarrow> string + Repository"

text \<open>
  The context values the worker reads: whether a value is stored under
  \<^verbatim>\<open>config.TokenKey\<close>, and the facilitators. The commands store the facilitators and the
  lab date in the context before they call the service, so the unchecked type assertions
  on them succeed.
\<close>

record runCtx =
  run_token :: "string option"
  run_facilitators :: "string list"

fun createRepoReport :: "remote \<Rightarrow> Organization \<Rightarrow> nat \<times> RepoConfig \<Rightarrow> RepoReport" where
  "createRepoReport rem organization (i, repoConfig) =
     (case CreateRepoFromTemplate rem organization i (Template repoConfig) (IncludeAllBranches repoConfig) of
        Inl e \<Rightarrow> \<lparr>repo_Name = Template repoConfig, repo_Status = ''failed'', repo_Error = e, repo_URL = []\<rparr>
      | Inr createdRepo \<Rightarrow>
          \<lparr>repo_Name = Template repoConfig, repo_Status = ''success'', repo_Error = [],
           repo_URL = HTMLURL createdRepo\<rparr>)"

text \<open>
  After the organization and, under app authentication, the app installation: the admin
  membership (its error is logged and dropped), then one report per template.
\<close>

definition provisionRepos ::
  "remote \<Rightarrow> runCtx \<Rightarrow> RepoConfig list \<Rightarrow> string \<Rightarrow> Organization \<Rightarrow> ProvisionResult \<Rightarrow> ProvisionResult" where
  "provisionRepos rem ctx templateRepos user organization result =
     (let facilitators = run_facilitators ctx;
          isUserInFacilitators = (user \<in> set facilitators);
          warned = (if \<not> isUserInFacilitators \<and> length facilitators > 0
                    then AddOrgMember rem (Login organization) user ''admin'' else None)
      in result\<lparr>Repos := map (createRepoReport rem organization) (enumerate 0 templateRepos),
                Status := ''success''\<rparr>)"

definition provisionOrg ::
  "remote \<Rightarrow> runCtx \<Rightarrow> RepoConfig list \<Rightarrow> string \<Rightarrow> Organization \<Rightarrow> ProvisionResult \<Rightarrow> ProvisionResult" where
  "provisionOrg rem ctx templateRepos user organization result =
     (let orgName = Login organization;
          result1 = result\<lparr>OrgName := orgName\<rparr>;
          installed = (if run_token ctx = None then InstallAppOnOrg rem orgName else None)
      in case installed of
           Some e \<Rightarrow> result1\<lparr>Error := ''Failed to install app: '' @ e\<rparr>
         | None \<Rightarrow> provisionRepos rem ctx templateRepos user organization result1)"

definition provisionOne :: "remote \<Rightarrow> runCtx \<Rightarrow> RepoConfig list \<Rightarrow> time \<Rightarrow> string \<Rightarrow> ProvisionResult" where
  "provisionOne rem ctx templateRepos now user =
     (let result = \<lparr>User = user, OrgName = [], Status = ''failed'', Error = [], Repos = [],
                    CompletedAt = now\<rparr>
      in case CreateOrg rem user of
           Inl e \<Rightarrow> result\<lparr>Error := ''Failed to create organization: '' @ e\<rparr>
         | Inr organization \<Rightarrow> provisionOrg rem ctx templateRepos user organization result)"

section \<open>Repository creation with retry (internal/github/repos.go)\<close>

text \<open>
  What \<^verbatim>\<open>client.Do\<close> and \<^verbatim>\<open>io.ReadAll\<close> give for one request: a transport error, an error
  while reading the body, or a status code with a body.
\<close>

datatype http_result =
    DoFailed string
  | ReadFailed string
  | Response nat string

record generateRequest =
  req_url :: string
  req_owner :: string
  req_name :: string
  req_include_all_branches :: bool

text \<open>
  The surroundings of one call: the base URL of the context, the error (if any) of
  \<^verbatim>\<open>http.NewRequestWithContext\<close> for a URL, the remote server, and the two uses of
  \<^verbatim>\<open>json.Unmarshal\<close>. For the request number \<open>n\<close> (the value of \<^verbatim>\<open>retryCount\<close>) sent at
  time \<open>t\<close>, \<open>server req n t\<close> is the answer and the number of seconds it takes.
  \<open>decodeMessage body\<close> is \<open>None\<close> when the body does not unmarshal, and the
  \<^verbatim>\<open>message\<close> field otherwise.
\<close>

record httpEnv =
  baseURL :: string
  newRequestErr :: "string \<Rightarrow> string option"
  server :: "generateRequest \<Rightarrow> nat \<Rightarrow> time \<Rightarrow> http_result \<times> nat"
  decodeMessage :: "string \<Rightarrow> string option"
  decodeRepository :: "string \<Rightarrow> string + Repository"

datatype repo_error =
    InvalidTemplateFormat string
  | CreateRequestFailed string
  | ExecuteRequestFailed string
  | ReadBodyFailed string
  | CreateFailedWithStatus nat string
  | ParseResponseFailed string

text \<open>
  \<^verbatim>\<open>context.WithTimeout(ctx, d)\<close>: the deadline of the derived context is \<open>now + d\<close>, or
  the parent's deadline when that is earlier. A context without deadline is \<open>None\<close>.
\<close>

definition WithTimeout :: "time option \<Rightarrow> time \<Rightarrow> nat \<Rightarrow> time" where
  "WithTimeout parent now d =
     (case parent of None \<Rightarrow> now + d | Some p \<Rightarrow> min p (now + d))"

text \<open>
  A request under a context: once the deadline has passed the transport returns the
  context's error without sending; an answer that would arrive at or after the deadline is
  replaced by that error at the deadline.
\<close>

definition clientDo ::
  "(nat \<Rightarrow> time \<Rightarrow> http_result \<times> nat) \<Rightarrow> time \<Rightarrow> nat \<Rightarrow> time \<Rightarrow> http_result \<times> time" where
  "clientDo srv deadline n now =
     (if deadline \<le> now then (DoFailed ''context deadline exceeded'', now)
      else case srv n now of
             (r, d) \<Rightarrow> if now + d < deadline then (r, now + d)
                       else (DoFailed ''context deadline exceeded'', deadline))"

text \<open>\<^verbatim>\<open>strings.Split(templateRepo, "/")\<close> has two parts when there is exactly one slash.\<close>

definition splitTemplate :: "string \<Rightarrow> (string \<times> string) option" where
  "splitTemplate templateRepo =
     (if count_list templateRepo (CHR ''/'') = 1
      then Some (takeWhile (\<lambda>c. c \<noteq> CHR ''/'') templateRepo,
                 tl (dropWhile (\<lambda>c. c \<noteq> CHR ''/'') templateRepo))
      else None)"

fun Contains :: "string \<Rightarrow> string \<Rightarrow> bool" where
  "Contains [] substr = (substr = [])"
| "Contains (c # s) substr = (take (length substr) (c # s) = substr \<or> Contains s substr)"

definition rateLimitPhrase :: string where
  "rateLimitPhrase = ''Resource not accessible by integration''"

definition isRateLimited :: "httpEnv \<Rightarrow> nat \<Rightarrow> string \<Rightarrow> bool" where
  "isRateLimited env status body \<longleftrightarrow>
     status = 422 \<and>
     (case decodeMessage env body of
        Some message \<Rightarrow> Contains message rateLimitPhrase
      | None \<Rightarrow> False)"

text \<open>
  One pass through the body of \<^verbatim>\<open>createRepoFromTemplateWithRetry\<close> up to its return or
  its sleep: \<open>Finished r t\<close> is a return of \<open>r\<close> at time \<open>t\<close>, \<open>RateLimited t\<close> is the
  branch that sleeps and calls the function again, reached at time \<open>t\<close>.
  \<^verbatim>\<open>json.Marshal\<close> does not fail on the payload, a map of strings and booleans, so its
  error branch is left out. The text of the transport's error for a context past its
  deadline is written \<open>''context deadline exceeded''\<close>.
\<close>

datatype attempt =
    Finished "repo_error + Repository" time
  | RateLimited time

definition handleResponse :: "httpEnv \<Rightarrow> http_result \<times> time \<Rightarrow> attempt" where
  "handleResponse env rt =
     (case rt of
        (DoFailed e, t) \<Rightarrow> Finished (Inl (ExecuteRequestFailed e)) t
      | (ReadFailed e, t) \<Rightarrow> Finished (Inl (ReadBodyFailed e)) t
      | (Response status body, t) \<Rightarrow>
          if status \<noteq> 201 then
            (if isRateLimited env status body then RateLimited t
             else Finished (Inl (CreateFailedWithStatus status body)) t)
          else (case decodeRepository env body of
                  Inl e \<Rightarrow> Finished (Inl (ParseResponseFailed e)) t
                | Inr result \<Rightarrow> Finished (Inr result) t))"

definition attemptCreate ::
  "httpEnv \<Rightarrow> Organization \<Rightarrow> string \<Rightarrow> bool \<Rightarrow> time \<Rightarrow> time \<Rightarrow> nat \<Rightarrow> attempt" where
  "attemptCreate env org templateRepo includeAllBranches deadline now retryCount =
     (case splitTemplate templateRepo of
        None \<Rightarrow> Finished (Inl (InvalidTemplateFormat templateRepo)) now
      | Some (templateOwner, templateRepoName) \<Rightarrow>
          let apiURL = baseURL env @ ''/repos/'' @ templateOwner @ ''/'' @ templateRepoName @ ''/generate'';
              req = \<lparr>req_url = apiURL, req_owner = Login org, req_name = templateRepoName,
                     req_include_all_branches = includeAllBranches\<rparr>
          in (case newRequestErr env apiURL of
                Some e \<Rightarrow> Finished (Inl (CreateRequestFailed e)) now
              | None \<Rightarrow> handleResponse env (clientDo (server env req) deadline retryCount now)))"

text \<open>
  The function itself. The context it derives with a timeout of ten minutes is the one it
  hands to its own call after the sleep of sixty seconds. It returns the result, the time
  of the return and the final value of \<^verbatim>\<open>retryCount\<close>.
\<close>

function createRepoFromTemplateWithRetry ::
  "httpEnv \<Rightarrow> Organization \<Rightarrow> string \<Rightarrow> bool \<Rightarrow> time option \<Rightarrow> time \<Rightarrow> nat
     \<Rightarrow> (repo_error + Repository) \<times> time \<times> nat" where
  "createRepoFromTemplateWithRetry env org templateRepo includeAllBranches parent now retryCount =
     (case attemptCreate env org templateRepo includeAllBranches
             (WithTimeout parent now (10 * 60)) now retryCount of
        Finished r t \<Rightarrow> (r, t, retryCount)
      | RateLimited t \<Rightarrow>
          createRepoFromTemplateWithRetry env org templateRepo includeAllBranches
            (Some (WithTimeout parent now (10 * 60))) (t + 60) (retryCount + 1))"
  by pat_completeness auto

definition CreateRepoFromTemplate_retrying ::
  "httpEnv \<Rightarrow> Organization \<Rightarrow> string \<Rightarrow> bool \<Rightarrow> time option \<Rightarrow> time
     \<Rightarrow> (repo_error + Repository) \<times> time \<times> nat" where
  "CreateRepoFromTemplate_retrying env org templateRepo includeAllBranches parent now =
     createRepoFromTemplateWithRetry env org templateRepo includeAllBranches parent now 0"



section \<open>The worker pool and the collection of results (CreateLabEnvironment)\<close>

text \<open>
  The goroutines of one run share the channel of users, the channel of results and the
  context. A worker is at the \<^verbatim>\<open>range\<close> over the channel of users (\<open>Waiting\<close>), holds a
  user it has received but not yet checked the context for (\<open>Received\<close>), is provisioning
  a user (\<open>Claimed\<close>, with the time stored in the result), or has returned (\<open>Stopped\<close>).
\<close>

datatype ctx_error = Canceled | DeadlineExceeded

datatype worker =
    Waiting
  | Received string
  | Claimed string time
  | Stopped

record pool =
  total :: nat
  toSend :: "string list"
  orgChan :: "string list"
  orgClosed :: bool
  ctxErr :: "ctx_error option"
  workers :: "worker list"
  resultsChan :: "ProvisionResult list"
  resultsClosed :: bool
  results :: "ProvisionResult list"
  resultCount :: nat
  successCount :: nat
  failureCount :: nat
  returned :: "ctx_error option option"

text \<open>
  What a run is given: the remote side, the context values and the templates. The remote
  operations are called with the context, so what they answer may depend on whether the
  context is done when the worker finishes its user: \<open>cfg_remote\<close> takes the error of
  the context at that moment.
\<close>

record runCfg =
  cfg_remote :: "ctx_error option \<Rightarrow> remote"
  cfg_ctx :: runCtx
  cfg_templateRepos :: "RepoConfig list"

definition numWorkers :: "nat \<Rightarrow> nat" where
  "numWorkers n = (if n < 9 then n else 9)"

text \<open>
  The state after the workers have been started and before the first user is sent.
  \<open>returned\<close> is \<open>None\<close> until \<^verbatim>\<open>CreateLabEnvironment\<close> returns, then \<open>Some None\<close> for
  \<^verbatim>\<open>nil\<close> and \<open>Some (Some e)\<close> for the error \<open>e\<close>.
\<close>

definition startPool :: "nat \<Rightarrow> string list \<Rightarrow> pool" where
  "startPool n allUsersToProvision =
     \<lparr>total = length allUsersToProvision, toSend = allUsersToProvision, orgChan = [],
      orgClosed = False, ctxErr = None, workers = replicate n Waiting,
      resultsChan = [], resultsClosed = False, results = [],
      resultCount = 0, successCount = 0, failureCount = 0, returned = None\<rparr>"

definition CreateLabEnvironment_start :: "string list \<Rightarrow> pool" where
  "CreateLabEnvironment_start allUsersToProvision =
     startPool (numWorkers (length allUsersToProvision)) allUsersToProvision"

text \<open>
  The atomic steps of the goroutines:
  \<^item> \<open>Send\<close>: the main goroutine sends the next user;
  \<^item> \<open>CloseOrgChan\<close>: it closes the channel of users after the last one;
  \<^item> \<open>Cancel e\<close>: the context becomes done with error \<open>e\<close>;
  \<^item> \<open>Dequeue i\<close>: worker \<open>i\<close> receives a user, or leaves its loop when the channel is
    closed and empty;
  \<^item> \<open>Check i t\<close>: worker \<open>i\<close> looks at the context, returns when it is done and otherwise
    starts the result at time \<open>t\<close>;
  \<^item> \<open>Publish i\<close>: worker \<open>i\<close> finishes the user it holds and sends the result;
  \<^item> \<open>CloseResults\<close>: the goroutine that waits for the workers closes the results;
  \<^item> \<open>Collect\<close>: the collecting loop receives a result, or sees the closed channel and
    returns;
  \<^item> \<open>Timeout\<close>: the collecting loop takes the branch of the done context.
  A step that cannot be taken in a state gives \<open>None\<close>. Both channels are made with
  room for every user, so no send waits; a worker at its \<^verbatim>\<open>range\<close> waits while the
  channel of users is empty and open.
\<close>

datatype event =
    Send
  | CloseOrgChan
  | Cancel ctx_error
  | Dequeue nat
  | Check nat time
  | Publish nat
  | CloseResults
  | Collect
  | Timeout

definition dequeue :: "nat \<Rightarrow> pool \<Rightarrow> pool option" where
  "dequeue i s =
     (if i < length (workers s) \<and> workers s ! i = Waiting then
        (case orgChan s of
           user # rest \<Rightarrow> Some (s\<lparr>orgChan := rest, workers := (workers s)[i := Received user]\<rparr>)
         | [] \<Rightarrow> if orgClosed s then Some (s\<lparr>workers := (workers s)[i := Stopped]\<rparr>) else None)
      else None)"

definition check :: "nat \<Rightarrow> time \<Rightarrow> pool \<Rightarrow> pool option" where
  "check i t s =
     (if i < length (workers s) then
        (case workers s ! i of
           Received user \<Rightarrow>
             if ctxErr s \<noteq> None then Some (s\<lparr>workers := (workers s)[i := Stopped]\<rparr>)
             else Some (s\<lparr>workers := (workers s)[i := Claimed user t]\<rparr>)
         | _ \<Rightarrow> None)
      else None)"

definition publish :: "runCfg \<Rightarrow> nat \<Rightarrow> pool \<Rightarrow> pool option" where
  "publish cfg i s =
     (if i < length (workers s) then
        (case workers s ! i of
           Claimed user t \<Rightarrow>
             Some (s\<lparr>resultsChan := resultsChan s @
                        [provisionOne (cfg_remote cfg (ctxErr s)) (cfg_ctx cfg) (cfg_templateRepos cfg) t user],
                     workers := (workers s)[i := Waiting]\<rparr>)
         | _ \<Rightarrow> None)
      else None)"

definition collect :: "pool \<Rightarrow> pool option" where
  "collect s =
     (if orgClosed s \<and> returned s = None then
        (case resultsChan s of
           res # rest \<Rightarrow>
             Some (s\<lparr>resultsChan := rest, results := results s @ [res],
                     resultCount := resultCount s + 1,
                     successCount := (if Status res = ''success'' then successCount s + 1
                                      else successCount s),
                     failureCount := (if Status res = ''success'' then failureCount s
                                      else failureCount s + 1)\<rparr>)
         | [] \<Rightarrow>
             if resultsClosed s
             then Some (s\<lparr>returned := Some (if resultCount s = total s then None else ctxErr s)\<rparr>)
             else None)
      else None)"

fun step :: "runCfg \<Rightarrow> event \<Rightarrow> pool \<Rightarrow> pool option" where
  "step cfg Send s =
     (case toSend s of
        user # rest \<Rightarrow> Some (s\<lparr>toSend := rest, orgChan := orgChan s @ [user]\<rparr>)
      | [] \<Rightarrow> None)"
| "step cfg CloseOrgChan s =
     (if toSend s = [] \<and> \<not> orgClosed s then Some (s\<lparr>orgClosed := True\<rparr>) else None)"
| "step cfg (Cancel e) s =
     (if ctxErr s = None then Some (s\<lparr>ctxErr := Some e\<rparr>) else None)"
| "step cfg (Dequeue i) s = dequeue i s"
| "step cfg (Check i t) s = check i t s"
| "step cfg (Publish i) s = publish cfg i s"
| "step cfg CloseResults s =
     (if orgClosed s \<and> \<not> resultsClosed s \<and> list_all (\<lambda>w. w = Stopped) (workers s)
      then Some (s\<lparr>resultsClosed := True\<rparr>) else None)"
| "step cfg Collect s = collect s"
| "step cfg Timeout s =
     (if orgClosed s \<and> returned s = None \<and> ctxErr s \<noteq> None
      then Some (s\<lparr>returned := Some (ctxErr s)\<rparr>) else None)"

fun run :: "runCfg \<Rightarrow> event list \<Rightarrow> pool \<Rightarrow> pool option" where
  "run cfg [] s = Some s"
| "run cfg (e # es) s = (case step cfg e s of None \<Rightarrow> None | Some s' \<Rightarrow> run cfg es s')"

text \<open>The results sent so far, collected or still in the channel, oldest first.\<close>

definition published :: "pool \<Rightarrow> ProvisionResult list" where
  "published s = results s @ resultsChan s"

text \<open>The users that the workers hold.\<close>

fun held :: "worker \<Rightarrow> string list" where
  "held (Received user) = [user]"
| "held (Claimed user t) = [user]"
| "held w = []"

text \<open>The steps of the main goroutine before the collecting loop and of the workers.\<close>

fun poolEvent :: "event \<Rightarrow> bool" where
  "poolEvent Send = True"
| "poolEvent CloseOrgChan = True"
| "poolEvent (Dequeue i) = True"
| "poolEvent (Check i t) = True"
| "poolEvent (Publish i) = True"
| "poolEvent CloseResults = True"
| "poolEvent e = False"

text \<open>
  A bound on the number of steps still to come: five for a user not yet sent, four for a
  user in the channel, the worker's own weight, and one for each channel still open.
\<close>

fun workerWeight :: "worker \<Rightarrow> nat" where
  "workerWeight Waiting = 1"
| "workerWeight (Received user) = 4"
| "workerWeight (Claimed user t) = 3"
| "workerWeight Stopped = 0"

definition stepsLeft :: "pool \<Rightarrow> nat" where
  "stepsLeft s =
     5 * length (toSend s) + 4 * length (orgChan s) + sum_list (map workerWeight (workers s))
     + (if orgClosed s then 0 else 1) + (if resultsClosed s then 0 else 1)"

text \<open>
  Where the users of a run are: not yet sent, in the channel, held by a worker, or in a
  published result. The invariant of the pool for the users \<open>users\<close> and \<open>n\<close> workers
  says that no user is counted twice and, as long as the context is not done, that none is
  lost and that a worker has only returned after the channel was closed and drained.
\<close>

definition heldUsers :: "pool \<Rightarrow> string list" where
  "heldUsers s = concat (map held (workers s))"

definition accounted :: "pool \<Rightarrow> string multiset" where
  "accounted s =
     mset (toSend s) + mset (orgChan s) + mset (heldUsers s) + mset (map User (published s))"

definition poolInv :: "string list \<Rightarrow> nat \<Rightarrow> pool \<Rightarrow> bool" where
  "poolInv users n s \<longleftrightarrow>
     total s = length users \<and>
     length (workers s) = n \<and>
     resultCount s = length (results s) \<and>
     (orgClosed s \<longrightarrow> toSend s = []) \<and>
     (resultsClosed s \<longrightarrow> orgClosed s \<and> list_all (\<lambda>w. w = Stopped) (workers s)) \<and>
     accounted s \<subseteq># mset users \<and>
     (ctxErr s = None \<longrightarrow>
        accounted s = mset users \<and>
        (Stopped \<in> set (workers s) \<longrightarrow> orgChan s = [] \<and> orgClosed s))"


section \<open>Concrete inputs\<close>

text \<open>A context with app credentials and no static token, and one with a static token.\<close>

definition appCtx :: authCtx where
  "appCtx = \<lparr>ctx_token = None, ctx_org = None, ctx_appID = Some ''12345'',
             ctx_privateKey = Some ''pem'', ctx_baseURL = Some ''https://api.github.com''\<rparr>"

definition patCtx :: authCtx where
  "patCtx = \<lparr>ctx_token = Some ''ghp_abc'', ctx_org = Some ''ghas-labs-2025-01-01-alice'',
             ctx_appID = None, ctx_privateKey = None, ctx_baseURL = Some ''https://api.github.com''\<rparr>"

text \<open>A cache whose enterprise entry expired at second 100.\<close>

definition staleCache :: authState where
  "staleCache = \<lparr>tokens = [''Enterprise'' \<mapsto> \<lparr>token = ''old'', expires = 100\<rparr>], exchanges = []\<rparr>"

text \<open>An empty cache, and a context with app credentials bound to alice's organization.\<close>

definition emptyCache :: authState where
  "emptyCache = \<lparr>tokens = Map.empty, exchanges = []\<rparr>"

definition appOrgCtx :: authCtx where
  "appOrgCtx = \<lparr>ctx_token = None, ctx_org = Some ''ghas-labs-2025-01-01-alice'',
                ctx_appID = Some ''12345'', ctx_privateKey = Some ''pem'',
                ctx_baseURL = Some ''https://api.github.com''\<rparr>"

text \<open>A token service whose first exchange fails and whose later ones succeed.\<close>

definition failsOnce :: exchange where
  "failsOnce n sc = (if n = 0 then Inl ''installation not found'' else Inr ''fresh'')"

text \<open>
  A run under app authentication with one facilitator and two templates, and two remote
  sides: one where the installation of the app fails, one where the creation of the
  second repository fails.
\<close>

definition appRunCtx :: runCtx where
  "appRunCtx = \<lparr>run_token = None, run_facilitators = [''carol'']\<rparr>"

definition twoTemplates :: "RepoConfig list" where
  "twoTemplates = [\<lparr>Template = ''octo/one'', IncludeAllBranches = False\<rparr>,
                   \<lparr>Template = ''octo/two'', IncludeAllBranches = True\<rparr>]"

definition orgFor :: "string \<Rightarrow> Organization" where
  "orgFor user = \<lparr>org_ID = ''O_'' @ user, Login = ''ghas-labs-2025-01-01-'' @ user,
                  org_Name = ''ghas-labs-2025-01-01-'' @ user\<rparr>"

definition installFails :: remote where
  "installFails =
     \<lparr>CreateOrg = (\<lambda>user. Inr (orgFor user)),
      InstallAppOnOrg = (\<lambda>orgName. Some ''failed to install app with status 403: forbidden''),
      AddOrgMember = (\<lambda>orgName user role. None),
      CreateRepoFromTemplate = (\<lambda>org i template includeAll. Inr \<lparr>FullName = template, HTMLURL = ''https://github.com/'' @ template\<rparr>)\<rparr>"

definition secondRepoFails :: remote where
  "secondRepoFails =
     \<lparr>CreateOrg = (\<lambda>user. Inr (orgFor user)),
      InstallAppOnOrg = (\<lambda>orgName. None),
      AddOrgMember = (\<lambda>orgName user role. None),
      CreateRepoFromTemplate = (\<lambda>org i template includeAll.
         if i = 1 then Inl ''failed to create repository from template with status 404: Not Found''
         else Inr \<lparr>FullName = template, HTMLURL = ''https://github.com/'' @ template\<rparr>)\<rparr>"


text \<open>
  A run for alice and bob in which the organization of bob cannot be created and every
  remote operation fails once the context is done, with two
  schedules of its two workers: one without cancellation, and one in which the context
  is done while worker 0 is provisioning alice and before worker 1 has looked at it.
\<close>

definition orgFailsForBob :: remote where
  "orgFailsForBob =
     \<lparr>CreateOrg = (\<lambda>user. if user = ''bob'' then Inl ''GraphQL errors: [login is taken]''
                          else Inr (orgFor user)),
      InstallAppOnOrg = (\<lambda>orgName. None),
      AddOrgMember = (\<lambda>orgName user role. None),
      CreateRepoFromTemplate = (\<lambda>org i template includeAll.
         Inr \<lparr>FullName = template, HTMLURL = ''https://github.com/'' @ template\<rparr>)\<rparr>"

definition whenDone :: remote where
  "whenDone =
     \<lparr>CreateOrg = (\<lambda>user. Inl ''failed to execute request: context deadline exceeded''),
      InstallAppOnOrg = (\<lambda>orgName. Some ''failed to execute request: context deadline exceeded''),
      AddOrgMember = (\<lambda>orgName user role. Some ''failed to execute request: context deadline exceeded''),
      CreateRepoFromTemplate = (\<lambda>org i template includeAll.
         Inl ''failed to execute request: context deadline exceeded'')\<rparr>"

definition demoCfg :: runCfg where
  "demoCfg = \<lparr>cfg_remote = (\<lambda>done. if done = None then orgFailsForBob else whenDone),
              cfg_ctx = appRunCtx, cfg_templateRepos = twoTemplates\<rparr>"

definition demoUsers :: "string list" where
  "demoUsers = [''alice'', ''bob'']"

definition fullSchedule :: "event list" where
  "fullSchedule =
     [Send, Dequeue 0, Send, CloseOrgChan, Check 0 10, Dequeue 1, Check 1 11, Publish 1,
      Publish 0, Dequeue 0, Dequeue 1, CloseResults, Collect, Collect]"

definition cancelledSchedule :: "event list" where
  "cancelledSchedule =
     [Send, Send, CloseOrgChan, Dequeue 0, Check 0 10, Dequeue 1, Cancel DeadlineExceeded,
      Check 1 11, Publish 0, Dequeue 0, CloseResults, Collect]"


text \<open>The state of the cancelled run when the collecting loop is about to see the closed channel.\<close>

definition cancelledAtClose :: pool where
  "cancelledAtClose = the (run demoCfg cancelledSchedule (CreateLabEnvironment_start demoUsers))"

text \<open>
  The state of the run without cancellation when the collecting loop is about to see the
  closed channel, and the same state after the context is cancelled at that moment.
\<close>

definition completedAtClose :: pool where
  "completedAtClose = the (run demoCfg fullSchedule (CreateLabEnvironment_start demoUsers))"

definition lateCancel :: pool where
  "lateCancel = the (run demoCfg (fullSchedule @ [Cancel Canceled]) (CreateLabEnvironment_start demoUsers))"

section \<open>Termination of the retry\<close>

lemma clientDo_time:
  "clientDo srv deadline n now = (Response status body, t) \<Longrightarrow> now \<le> t \<and> t < deadline"
  by (auto simp: clientDo_def split: if_splits prod.splits)

lemma handleResponse_RateLimited:
  "handleResponse env (r, t) = RateLimited t' \<Longrightarrow> t' = t \<and> (\<exists>status body. r = Response status body)"
  by (auto simp: handleResponse_def split: http_result.splits if_splits sum.splits)

lemma handleResponse_clientDo_time:
  assumes "handleResponse env (clientDo srv deadline n now) = RateLimited t"
  shows "now \<le> t \<and> t < deadline"
proof -
  obtain r t' where rt: "clientDo srv deadline n now = (r, t')"
    by (cases "clientDo srv deadline n now")
  with assms have "t = t'" and "\<exists>status body. r = Response status body"
    using handleResponse_RateLimited [of env r t' t] by auto
  with rt show ?thesis by (auto dest: clientDo_time)
qed

lemma attemptCreate_RateLimited_time:
  assumes "attemptCreate env org templateRepo inc deadline now rc = RateLimited t"
  shows "now \<le> t \<and> t < deadline"
  using assms
  by (auto simp: attemptCreate_def Let_def split: option.splits prod.splits
           dest: handleResponse_clientDo_time)

termination createRepoFromTemplateWithRetry
proof (relation "measure (\<lambda>(env, org, templateRepo, inc, parent, now, rc).
          case parent of None \<Rightarrow> 601 | Some d \<Rightarrow> min (d - now) 600)")
  show "wf (measure (\<lambda>(env, org, templateRepo, inc, parent, now, rc).
          case parent of None \<Rightarrow> 601 | Some d \<Rightarrow> min (d - now) (600::nat)))"
    by simp
next
  fix env :: httpEnv and org :: Organization and templateRepo :: string and inc :: bool
    and parent :: "time option" and now rc t :: nat
  assume "attemptCreate env org templateRepo inc (WithTimeout parent now (10 * 60)) now rc = RateLimited t"
  then have "now \<le> t \<and> t < WithTimeout parent now (10 * 60)"
    by (rule attemptCreate_RateLimited_time)
  then show "((env, org, templateRepo, inc, Some (WithTimeout parent now (10 * 60)), t + 60, rc + 1),
              (env, org, templateRepo, inc, parent, now, rc))
             \<in> measure (\<lambda>(env, org, templateRepo, inc, parent, now, rc).
                  case parent of None \<Rightarrow> 601 | Some d \<Rightarrow> min (d - now) 600)"
    by (auto simp: WithTimeout_def split: option.splits)
qed

section \<open>Organization names\<close>

text \<open>
  Claim C6, as amended. The name of the organization is a function of the lab identifier
  and the identity alone, the create path and the delete path compute the same name, and
  for the identities alice and bob and the lab identifier 2025-01-01 the names are
  ghas-labs-2025-01-01-alice and ghas-labs-2025-01-01-bob.
\<close>

theorem orgName_create_delete_agree:
  "CreateOrg_orgName labDate user = DestroyOrg_orgName labDate user \<and>
   CreateOrg_orgName labDate user = ''ghas-labs-'' @ labDate @ ''-'' @ user \<and>
   map (CreateOrg_orgName ''2025-01-01'') [''alice'', ''bob'']
     = [''ghas-labs-2025-01-01-alice'', ''ghas-labs-2025-01-01-bob'']"
  by (simp add: CreateOrg_orgName_def DestroyOrg_orgName_def)

text \<open>
  Claim C6 as stated fails: the names computed for alice and bob are not
  lab-2025-01-01-alice and lab-2025-01-01-bob.
\<close>

theorem orgName_lab_prefix_counterexample:
  "map (CreateOrg_orgName ''2025-01-01'') [''alice'', ''bob'']
     \<noteq> [''lab-2025-01-01-alice'', ''lab-2025-01-01-bob'']"
  by (simp add: CreateOrg_orgName_def)

section \<open>The authorization provider\<close>

lemma cachedLive_expired:
  "c k = Some cached \<Longrightarrow> expires cached \<le> now \<Longrightarrow> cachedLive c k now = None"
  by (simp add: cachedLive_def)

lemma cachedLive_None_later:
  "cachedLive c k now = None \<Longrightarrow> now \<le> later \<Longrightarrow> cachedLive c k later = None"
  by (auto simp: cachedLive_def split: option.splits if_splits)

lemma authProv_app_auth:
  assumes "ctx_token ctx = None \<or> ctx_token ctx = Some []"
    and "cachedLive (tokens s) (cacheKey targetType ctx) t1 = None"
  shows "authProv ex ctx targetType t1 t2 t3 s = authProv_locked ex ctx targetType t2 t3 s"
  using assms by (auto simp: authProv_def)

lemma authProv_locked_miss:
  assumes "cachedLive (tokens s) (cacheKey targetType ctx) t2 = None"
    and "hasAppCredentials ctx"
  shows "authProv_locked ex ctx targetType t2 t3 s =
     (case ex (length (exchanges s)) (scopeOf targetType ctx) of
        Inl e \<Rightarrow> (Inl (ExchangeError e), s\<lparr>exchanges := exchanges s @ [scopeOf targetType ctx]\<rparr>)
      | Inr tokenStr \<Rightarrow>
          (Inr (''Bearer '' @ tokenStr),
           s\<lparr>exchanges := exchanges s @ [scopeOf targetType ctx],
             tokens := (tokens s)(cacheKey targetType ctx \<mapsto>
                          \<lparr>token = tokenStr, expires = t3 + 55 * 60\<rparr>)\<rparr>))"
  using assms by (simp add: authProv_locked_def Let_def split: sum.splits)

text \<open>
  What a lookup under app authentication returns is either the token of an entry that was
  live at one of the two checks, with the state unchanged, or the result of an exchange
  that this lookup made.
\<close>

lemma cachedLive_Some:
  "cachedLive c k now = Some tok \<Longrightarrow> \<exists>cached. c k = Some cached \<and> token cached = tok \<and> now < expires cached"
  by (auto simp: cachedLive_def split: option.splits if_splits)

lemma authProv_locked_live_or_fresh:
  assumes "authProv_locked ex ctx targetType t2 t3 s = (Inr h, s')"
  shows "(\<exists>cached. tokens s (cacheKey targetType ctx) = Some cached \<and>
            h = ''Bearer '' @ token cached \<and> t2 < expires cached \<and> s' = s) \<or>
         exchanges s' = exchanges s @ [scopeOf targetType ctx]"
proof (cases "cachedLive (tokens s) (cacheKey targetType ctx) t2")
  case None
  with assms show ?thesis
    by (auto simp: authProv_locked_def Let_def split: if_splits sum.splits)
next
  case (Some tok)
  with assms have "h = ''Bearer '' @ tok" and "s' = s"
    by (auto simp: authProv_locked_def Let_def)
  with cachedLive_Some [OF Some] show ?thesis by auto
qed

lemma authProv_live_or_fresh:
  assumes "authProv ex ctx targetType t1 t2 t3 s = (Inr h, s')"
    and "ctx_token ctx = None \<or> ctx_token ctx = Some []"
  shows "(\<exists>cached. tokens s (cacheKey targetType ctx) = Some cached \<and>
            h = ''Bearer '' @ token cached \<and> (t1 < expires cached \<or> t2 < expires cached) \<and> s' = s) \<or>
         exchanges s' = exchanges s @ [scopeOf targetType ctx]"
proof (cases "cachedLive (tokens s) (cacheKey targetType ctx) t1")
  case None
  with assms have "authProv_locked ex ctx targetType t2 t3 s = (Inr h, s')"
    using authProv_app_auth [OF assms(2) None] by simp
  from authProv_locked_live_or_fresh [OF this] show ?thesis by auto
next
  case (Some tok)
  with assms have "h = ''Bearer '' @ tok" and "s' = s"
    by (auto simp: authProv_def Let_def)
  with cachedLive_Some [OF Some] show ?thesis by auto
qed

text \<open>
  Claim C2. Under app authentication, a lookup that finds an entry for its scope key
  whose expiry has passed (\<open>expires cached \<le> t1\<close>, and the clock does not run backwards
  between the two checks) does not return that entry: it asks the token service, and its
  result is what the exchange gives, whatever the cached token was. When the exchange
  succeeds the entry is replaced by the new token, expiring 55 minutes after the store.
  The same holds for the part under the write lock on its own.
\<close>

theorem authProv_expired_entry_refreshed:
  assumes "ctx_token ctx = None \<or> ctx_token ctx = Some []"
    and "hasAppCredentials ctx"
    and "tokens s (cacheKey targetType ctx) = Some cached"
    and "expires cached \<le> t1" and "t1 \<le> t2"
  shows "authProv ex ctx targetType t1 t2 t3 s =
     (case ex (length (exchanges s)) (scopeOf targetType ctx) of
        Inl e \<Rightarrow> (Inl (ExchangeError e), s\<lparr>exchanges := exchanges s @ [scopeOf targetType ctx]\<rparr>)
      | Inr tokenStr \<Rightarrow>
          (Inr (''Bearer '' @ tokenStr),
           s\<lparr>exchanges := exchanges s @ [scopeOf targetType ctx],
             tokens := (tokens s)(cacheKey targetType ctx \<mapsto>
                          \<lparr>token = tokenStr, expires = t3 + 55 * 60\<rparr>)\<rparr>))
     \<and> authProv_locked ex ctx targetType t2 t3 s = authProv ex ctx targetType t1 t2 t3 s"
proof -
  have miss1: "cachedLive (tokens s) (cacheKey targetType ctx) t1 = None"
    using assms(3,4) by (rule cachedLive_expired)
  then have miss2: "cachedLive (tokens s) (cacheKey targetType ctx) t2 = None"
    using assms(5) by (rule cachedLive_None_later)
  have "authProv ex ctx targetType t1 t2 t3 s = authProv_locked ex ctx targetType t2 t3 s"
    using assms(1) miss1 by (rule authProv_app_auth)
  then show ?thesis
    using authProv_locked_miss [OF miss2 assms(2)] by simp
qed

theorem authProv_expired_entry_refreshed_witness:
  "(ctx_token appCtx = None \<or> ctx_token appCtx = Some []) \<and> hasAppCredentials appCtx \<and>
   tokens staleCache (cacheKey EnterpriseType appCtx) = Some \<lparr>token = ''old'', expires = 100\<rparr> \<and>
   expires \<lparr>token = ''old'', expires = 100\<rparr> \<le> (100::nat) \<and> (100::nat) \<le> 101 \<and>
   authProv (\<lambda>n sc. Inr ''new'') appCtx EnterpriseType 100 101 102 staleCache =
     (Inr ''Bearer new'',
      \<lparr>tokens = [''Enterprise'' \<mapsto> \<lparr>token = ''new'', expires = 3402\<rparr>],
       exchanges = [ForType ''Enterprise'']\<rparr>)"
proof -
  have h1: "ctx_token appCtx = None \<or> ctx_token appCtx = Some []"
    by (simp add: appCtx_def)
  have h2: "hasAppCredentials appCtx"
    by (simp add: appCtx_def hasAppCredentials_def)
  have h3: "tokens staleCache (cacheKey EnterpriseType appCtx) = Some \<lparr>token = ''old'', expires = 100\<rparr>"
    by (simp add: staleCache_def cacheKey_def EnterpriseType_def OrganizationType_def)
  have h4: "expires \<lparr>token = ''old'', expires = 100\<rparr> \<le> (100::nat)" by simp
  have h5: "(100::nat) \<le> 101" by simp
  have k: "cacheKey EnterpriseType appCtx = ''Enterprise''"
    by (simp add: cacheKey_def EnterpriseType_def OrganizationType_def)
  have sc: "scopeOf EnterpriseType appCtx = ForType ''Enterprise''"
    by (simp add: scopeOf_def EnterpriseType_def OrganizationType_def)
  show ?thesis
    using h1 h2 h3 h4 h5
      authProv_expired_entry_refreshed [OF h1 h2 h3 h4 h5, of "\<lambda>n sc. Inr ''new''" 102]
    by (simp add: k sc staleCache_def)
qed

text \<open>
  A lookup only returns the error of an exchange after it has asked the token service,
  and then the cache is as before and a later lookup asks again.
\<close>

lemma authProv_exchange_error_inversion:
  assumes "authProv ex ctx targetType t1 t2 t3 s = (Inl (ExchangeError e), s')"
    and "t2 \<le> u1" and "u1 \<le> u2"
  shows "tokens s' = tokens s \<and>
         exchanges s' = exchanges s @ [scopeOf targetType ctx] \<and>
         ex (length (exchanges s)) (scopeOf targetType ctx) = Inl e \<and>
         exchanges (snd (authProv ex ctx targetType u1 u2 u3 s'))
           = exchanges s' @ [scopeOf targetType ctx] \<and>
         fst (authProv ex ctx targetType u1 u2 u3 s')
           = (case ex (length (exchanges s')) (scopeOf targetType ctx) of
                Inl e' \<Rightarrow> Inl (ExchangeError e')
              | Inr tokenStr \<Rightarrow> Inr (''Bearer '' @ tokenStr))"
proof -
  let ?k = "cacheKey targetType ctx" and ?sc = "scopeOf targetType ctx"
  from assms(1) have app: "ctx_token ctx = None \<or> ctx_token ctx = Some []"
    by (auto simp: authProv_def Let_def split: option.splits if_splits)
  from assms(1) have miss1: "cachedLive (tokens s) ?k t1 = None"
    by (auto simp: authProv_def Let_def split: option.splits if_splits)
  from assms(1) have locked: "authProv_locked ex ctx targetType t2 t3 s = (Inl (ExchangeError e), s')"
    using authProv_app_auth [OF app miss1] by simp
  then have miss2: "cachedLive (tokens s) ?k t2 = None"
    by (auto simp: authProv_locked_def Let_def split: option.splits)
  from locked have creds: "hasAppCredentials ctx"
    by (auto simp: authProv_locked_def Let_def split: option.splits if_splits)
  from locked have failed: "ex (length (exchanges s)) ?sc = Inl e"
    and s': "s' = s\<lparr>exchanges := exchanges s @ [?sc]\<rparr>"
    unfolding authProv_locked_miss [OF miss2 creds]
    by (auto split: sum.splits)
  have miss_u1: "cachedLive (tokens s') ?k u1 = None"
    using cachedLive_None_later [OF miss2 assms(2)] by (simp add: s')
  have miss_u2: "cachedLive (tokens s') ?k u2 = None"
    using cachedLive_None_later [OF miss_u1 assms(3)] .
  have again: "authProv ex ctx targetType u1 u2 u3 s' = authProv_locked ex ctx targetType u2 u3 s'"
    using app miss_u1 by (rule authProv_app_auth)
  show ?thesis
    unfolding again authProv_locked_miss [OF miss_u2 creds]
    using failed by (auto simp: s' split: sum.splits)
qed

text \<open>
  Claim C7. Take a lookup under app authentication that finds no live entry for its scope
  key, be it that the cache has no entry for the key or an expired one, and whose
  exchange fails with error \<open>e\<close>. The lookup returns that error; the state after it
  differs from the state before only in the list of the exchanges asked for, so no entry
  is written; and every later lookup for the same scope asks the token service again and
  returns, and caches, what that second exchange gives.
\<close>

theorem authProv_exchange_failure_not_cached:
  assumes "ctx_token ctx = None \<or> ctx_token ctx = Some []"
    and "hasAppCredentials ctx"
    and "cachedLive (tokens s) (cacheKey targetType ctx) t1 = None"
    and "t1 \<le> t2" and "t2 \<le> u1" and "u1 \<le> u2"
    and "ex (length (exchanges s)) (scopeOf targetType ctx) = Inl e"
  shows "authProv ex ctx targetType t1 t2 t3 s
           = (Inl (ExchangeError e), s\<lparr>exchanges := exchanges s @ [scopeOf targetType ctx]\<rparr>) \<and>
         tokens (snd (authProv ex ctx targetType t1 t2 t3 s)) = tokens s \<and>
         authProv ex ctx targetType u1 u2 u3 (snd (authProv ex ctx targetType t1 t2 t3 s))
           = (case ex (Suc (length (exchanges s))) (scopeOf targetType ctx) of
                Inl e' \<Rightarrow>
                  (Inl (ExchangeError e'),
                   s\<lparr>exchanges := exchanges s @ [scopeOf targetType ctx, scopeOf targetType ctx]\<rparr>)
              | Inr tokenStr \<Rightarrow>
                  (Inr (''Bearer '' @ tokenStr),
                   s\<lparr>exchanges := exchanges s @ [scopeOf targetType ctx, scopeOf targetType ctx],
                     tokens := (tokens s)(cacheKey targetType ctx \<mapsto>
                                  \<lparr>token = tokenStr, expires = u3 + 55 * 60\<rparr>)\<rparr>))"
proof -
  let ?k = "cacheKey targetType ctx" and ?sc = "scopeOf targetType ctx"
  let ?s1 = "s\<lparr>exchanges := exchanges s @ [?sc]\<rparr>"
  have miss2: "cachedLive (tokens s) ?k t2 = None"
    using assms(3,4) by (rule cachedLive_None_later)
  have "authProv ex ctx targetType t1 t2 t3 s = authProv_locked ex ctx targetType t2 t3 s"
    using assms(1,3) by (rule authProv_app_auth)
  then have first: "authProv ex ctx targetType t1 t2 t3 s = (Inl (ExchangeError e), ?s1)"
    using authProv_locked_miss [OF miss2 assms(2), of ex t3] assms(7) by simp
  have miss_u1: "cachedLive (tokens ?s1) ?k u1 = None"
    using cachedLive_None_later [OF miss2 assms(5)] by simp
  have miss_u2: "cachedLive (tokens ?s1) ?k u2 = None"
    using cachedLive_None_later [OF miss_u1 assms(6)] .
  have "authProv ex ctx targetType u1 u2 u3 ?s1 = authProv_locked ex ctx targetType u2 u3 ?s1"
    using assms(1) miss_u1 by (rule authProv_app_auth)
  then have second: "authProv ex ctx targetType u1 u2 u3 ?s1
           = (case ex (Suc (length (exchanges s))) ?sc of
                Inl e' \<Rightarrow> (Inl (ExchangeError e'), s\<lparr>exchanges := exchanges s @ [?sc, ?sc]\<rparr>)
              | Inr tokenStr \<Rightarrow>
                  (Inr (''Bearer '' @ tokenStr),
                   s\<lparr>exchanges := exchanges s @ [?sc, ?sc],
                     tokens := (tokens s)(?k \<mapsto> \<lparr>token = tokenStr, expires = u3 + 55 * 60\<rparr>)\<rparr>))"
    using authProv_locked_miss [OF miss_u2 assms(2), of ex u3]
    by (simp split: sum.splits)
  have cache: "tokens (snd (authProv ex ctx targetType t1 t2 t3 s)) = tokens s"
    by (simp add: first)
  show ?thesis using first second by simp
qed

theorem authProv_exchange_failure_not_cached_witness:
  "(ctx_token appOrgCtx = None \<or> ctx_token appOrgCtx = Some []) \<and>
   hasAppCredentials appOrgCtx \<and>
   cachedLive (tokens emptyCache) (cacheKey OrganizationType appOrgCtx) 100 = None \<and>
   tokens emptyCache (cacheKey OrganizationType appOrgCtx) = None \<and>
   (100::nat) \<le> 101 \<and> (101::nat) \<le> 200 \<and> (200::nat) \<le> 201 \<and>
   failsOnce (length (exchanges emptyCache)) (scopeOf OrganizationType appOrgCtx)
     = Inl ''installation not found'' \<and>
   authProv failsOnce appOrgCtx OrganizationType 100 101 102 emptyCache
     = (Inl (ExchangeError ''installation not found''),
        \<lparr>tokens = Map.empty, exchanges = [ForOrg ''ghas-labs-2025-01-01-alice'']\<rparr>) \<and>
   authProv failsOnce appOrgCtx OrganizationType 200 201 202
       \<lparr>tokens = Map.empty, exchanges = [ForOrg ''ghas-labs-2025-01-01-alice'']\<rparr>
     = (Inr ''Bearer fresh'',
        \<lparr>tokens = [''Organization:ghas-labs-2025-01-01-alice'' \<mapsto> \<lparr>token = ''fresh'', expires = 3502\<rparr>],
         exchanges = [ForOrg ''ghas-labs-2025-01-01-alice'', ForOrg ''ghas-labs-2025-01-01-alice'']\<rparr>)"
proof -
  have k: "cacheKey OrganizationType appOrgCtx = ''Organization:ghas-labs-2025-01-01-alice''"
    by (simp add: cacheKey_def orgNameOf_def appOrgCtx_def OrganizationType_def)
  have sc: "scopeOf OrganizationType appOrgCtx = ForOrg ''ghas-labs-2025-01-01-alice''"
    by (simp add: scopeOf_def orgNameOf_def appOrgCtx_def OrganizationType_def)
  have h1: "ctx_token appOrgCtx = None \<or> ctx_token appOrgCtx = Some []"
    by (simp add: appOrgCtx_def)
  have h2: "hasAppCredentials appOrgCtx"
    by (simp add: appOrgCtx_def hasAppCredentials_def)
  have none: "tokens emptyCache (cacheKey OrganizationType appOrgCtx) = None"
    by (simp add: emptyCache_def)
  have h3: "cachedLive (tokens emptyCache) (cacheKey OrganizationType appOrgCtx) 100 = None"
    by (simp add: cachedLive_def none)
  have h4: "(100::nat) \<le> 101" and h5: "(101::nat) \<le> 200" and h6: "(200::nat) \<le> 201"
    by simp_all
  have h7: "failsOnce (length (exchanges emptyCache)) (scopeOf OrganizationType appOrgCtx)
     = Inl ''installation not found''"
    by (simp add: failsOnce_def emptyCache_def)
  have nxt: "failsOnce (Suc (length (exchanges emptyCache))) (ForOrg ''ghas-labs-2025-01-01-alice'')
     = Inr ''fresh''"
    by (simp add: failsOnce_def)
  have st: "emptyCache\<lparr>exchanges := exchanges emptyCache @ [ForOrg ''ghas-labs-2025-01-01-alice'']\<rparr>
      = \<lparr>tokens = Map.empty, exchanges = [ForOrg ''ghas-labs-2025-01-01-alice'']\<rparr>"
    by (simp add: emptyCache_def)
  note inst = authProv_exchange_failure_not_cached
    [of appOrgCtx emptyCache OrganizationType 100 101 200 201 failsOnce "''installation not found''" 102 202,
     OF h1 h2 h3 h4 h5 h6 h7]
  have first: "authProv failsOnce appOrgCtx OrganizationType 100 101 102 emptyCache
     = (Inl (ExchangeError ''installation not found''),
        \<lparr>tokens = Map.empty, exchanges = [ForOrg ''ghas-labs-2025-01-01-alice'']\<rparr>)"
    using inst [THEN conjunct1] unfolding sc st .
  have second: "authProv failsOnce appOrgCtx OrganizationType 200 201 202
       \<lparr>tokens = Map.empty, exchanges = [ForOrg ''ghas-labs-2025-01-01-alice'']\<rparr>
     = (Inr ''Bearer fresh'',
        \<lparr>tokens = [''Organization:ghas-labs-2025-01-01-alice'' \<mapsto> \<lparr>token = ''fresh'', expires = 3502\<rparr>],
         exchanges = [ForOrg ''ghas-labs-2025-01-01-alice'', ForOrg ''ghas-labs-2025-01-01-alice'']\<rparr>)"
  proof -
    have after: "snd (authProv failsOnce appOrgCtx OrganizationType 100 101 102 emptyCache)
        = \<lparr>tokens = Map.empty, exchanges = [ForOrg ''ghas-labs-2025-01-01-alice'']\<rparr>"
      by (simp add: first)
    show ?thesis
      using inst [THEN conjunct2, THEN conjunct2] unfolding after sc nxt
      by (simp add: k emptyCache_def)
  qed
  from h1 h2 h3 none h4 h5 h6 h7 first second show ?thesis by (intro conjI)
qed

text \<open>
  Claim C9. When the context holds a non-empty static token, every lookup returns
  "Bearer " followed by that token, without error, and leaves the cache and the list of
  exchanges as they were, whatever the cache holds and whatever the token service would
  answer.
\<close>

theorem authProv_static_token:
  assumes "ctx_token ctx = Some tk" and "tk \<noteq> []"
  shows "authProv ex ctx targetType t1 t2 t3 s = (Inr (''Bearer '' @ tk), s)"
  using assms by (simp add: authProv_def)

theorem authProv_static_token_witness:
  "ctx_token patCtx = Some ''ghp_abc'' \<and> ''ghp_abc'' \<noteq> [] \<and>
   authProv failsOnce patCtx OrganizationType 100 101 102 staleCache
     = (Inr ''Bearer ghp_abc'', staleCache)"
proof -
  have h1: "ctx_token patCtx = Some ''ghp_abc''" by (simp add: patCtx_def)
  have h2: "''ghp_abc'' \<noteq> []" by simp
  show ?thesis
    using h1 h2 authProv_static_token [OF h1 h2, of failsOnce OrganizationType 100 101 102 staleCache]
    by simp
qed

section \<open>Validation of user names\<close>

lemma validateUser_username: "username (validateUser user oc) = user"
  by (simp add: validateUser_def split: validation_outcome.splits)

lemma validateUser_valid: "valid (validateUser user oc) \<longleftrightarrow> oc = StatusCode 200"
  by (simp add: validateUser_def split: validation_outcome.splits)

lemma foldl_collectStep_lookup:
  "lookupBool (fst (foldl collectStep (m, ivs) rs)) u
     \<longleftrightarrow> lookupBool m u \<or> (\<exists>r \<in> set rs. valid r \<and> username r = u)"
  by (induction rs arbitrary: m ivs) (auto simp: collectStep_def lookupBool_def)

lemma foldl_collectStep_invalid:
  "snd (foldl collectStep (m, ivs) rs) = ivs @ map username (filter (\<lambda>r. \<not> valid r) rs)"
  by (induction rs arbitrary: m ivs) (auto simp: collectStep_def)

lemma collectResults_lookup:
  "lookupBool (fst (collectResults rs)) u \<longleftrightarrow> (\<exists>r \<in> set rs. valid r \<and> username r = u)"
  unfolding collectResults_def foldl_collectStep_lookup by (simp add: lookupBool_def)

lemma collectResults_invalid:
  "snd (collectResults rs) = map username (filter (\<lambda>r. \<not> valid r) rs)"
  by (simp add: collectResults_def foldl_collectStep_invalid)

lemma arrival_set:
  assumes "mset arrival = mset [0..<n]"
  shows "set arrival = {..<n}"
  using mset_eq_setD [OF assms] by (simp add: lessThan_atLeast0)

lemma validationMap_lookup:
  assumes "mset arrival = mset [0..<length usernames]"
  shows "lookupBool (fst (collectResults (map (\<lambda>i. validateUser (usernames ! i) (outcome i)) arrival))) u
     \<longleftrightarrow> (\<exists>i < length usernames. usernames ! i = u \<and> outcome i = StatusCode 200)"
proof -
  have "lookupBool (fst (collectResults (map (\<lambda>i. validateUser (usernames ! i) (outcome i)) arrival))) u
     \<longleftrightarrow> (\<exists>i \<in> set arrival. outcome i = StatusCode 200 \<and> usernames ! i = u)"
    by (simp add: collectResults_lookup validateUser_username validateUser_valid)
  also have "\<dots> \<longleftrightarrow> (\<exists>i < length usernames. usernames ! i = u \<and> outcome i = StatusCode 200)"
    unfolding arrival_set [OF assms] by blast
  finally show ?thesis .
qed

lemma filter_empty_valid:
  "filter (\<lambda>u. \<exists>i < length usernames. usernames ! i = u \<and> outcome i = StatusCode 200) usernames = []
     \<longleftrightarrow> (\<forall>i < length usernames. outcome i \<noteq> StatusCode 200)"
proof
  assume e: "filter (\<lambda>u. \<exists>i < length usernames. usernames ! i = u \<and> outcome i = StatusCode 200) usernames = []"
  show "\<forall>i < length usernames. outcome i \<noteq> StatusCode 200"
  proof (intro allI impI)
    fix i assume i: "i < length usernames"
    then have "usernames ! i \<in> set usernames" by (rule nth_mem)
    with e have "\<not> (\<exists>j < length usernames. usernames ! j = usernames ! i \<and> outcome j = StatusCode 200)"
      unfolding filter_empty_conv by blast
    with i show "outcome i \<noteq> StatusCode 200" by blast
  qed
next
  assume "\<forall>i < length usernames. outcome i \<noteq> StatusCode 200"
  then show "filter (\<lambda>u. \<exists>i < length usernames. usernames ! i = u \<and> outcome i = StatusCode 200) usernames = []"
    unfolding filter_empty_conv by blast
qed

text \<open>
  Claim C10. Every goroutine sends one result, in some order \<open>arrival\<close> of the
  positions. \<^verbatim>\<open>ValidateAndFilterUsers\<close> returns an error exactly when the list is not empty
  and the validation of every position fails; an empty list gives empty valid and invalid
  lists; otherwise it succeeds, and the valid users are the supplied names for which some
  validation succeeded, in the order of the input.
\<close>

theorem ValidateAndFilterUsers_result:
  assumes "mset arrival = mset [0..<length usernames]"
  shows "ValidateAndFilterUsers usernames outcome arrival =
     (if usernames = [] then Inr \<lparr>ValidUsers = [], InvalidUsers = []\<rparr>
      else if \<forall>i < length usernames. \<not> valid (validateUser (usernames ! i) (outcome i))
      then Inl ''no valid users found after validation''
      else Inr \<lparr>ValidUsers = filter (\<lambda>u. \<exists>i < length usernames. usernames ! i = u \<and>
                                           valid (validateUser u (outcome i))) usernames,
                InvalidUsers = map (\<lambda>i. usernames ! i)
                                 (filter (\<lambda>i. \<not> valid (validateUser (usernames ! i) (outcome i))) arrival)\<rparr>)"
proof -
  let ?rs = "map (\<lambda>i. validateUser (usernames ! i) (outcome i)) arrival"
  have vm: "filter (lookupBool (fst (collectResults ?rs))) usernames
      = filter (\<lambda>u. \<exists>i < length usernames. usernames ! i = u \<and> outcome i = StatusCode 200) usernames"
    by (rule filter_cong [OF refl]) (simp add: validationMap_lookup [OF assms])
  have ivs: "snd (collectResults ?rs)
      = map (\<lambda>i. usernames ! i) (filter (\<lambda>i. outcome i \<noteq> StatusCode 200) arrival)"
    by (simp add: collectResults_invalid filter_map comp_def validateUser_valid validateUser_username)
  show ?thesis
  proof (cases "usernames = []")
    case True
    then show ?thesis by (simp add: ValidateAndFilterUsers_def)
  next
    case False
    have "ValidateAndFilterUsers usernames outcome arrival =
        (let validUsers = filter (lookupBool (fst (collectResults ?rs))) usernames
         in if length validUsers = 0 then Inl ''no valid users found after validation''
            else Inr \<lparr>ValidUsers = validUsers, InvalidUsers = snd (collectResults ?rs)\<rparr>)"
      using False by (simp add: ValidateAndFilterUsers_def split_beta)
    then show ?thesis
      unfolding vm ivs Let_def length_0_conv filter_empty_valid validateUser_valid
      using False by simp
  qed
qed

theorem ValidateAndFilterUsers_result_witness:
  "mset [2, 0, 1] = mset [0..<length [''alice'', ''ghost'', ''bob'']] \<and>
   ValidateAndFilterUsers [''alice'', ''ghost'', ''bob'']
       (\<lambda>i. if i = 1 then StatusCode 404 else StatusCode 200) [2, 0, 1]
     = Inr \<lparr>ValidUsers = [''alice'', ''bob''], InvalidUsers = [''ghost'']\<rparr>"
proof -
  have h: "mset [2, 0, 1] = mset [0..<length [''alice'', ''ghost'', ''bob'']]"
    by (simp add: upt_rec)
  have v: "ValidateAndFilterUsers [''alice'', ''ghost'', ''bob'']
       (\<lambda>i. if i = 1 then StatusCode 404 else StatusCode 200) [2, 0, 1]
     = Inr \<lparr>ValidUsers = [''alice'', ''bob''], InvalidUsers = [''ghost'']\<rparr>"
    by (simp add: ValidateAndFilterUsers_def collectResults_def collectStep_def
          validateUser_def lookupBool_def)
  show ?thesis
    using h v ValidateAndFilterUsers_result [OF h, of "\<lambda>i. if i = 1 then StatusCode 404 else StatusCode 200"]
    by simp
qed

section \<open>Provisioning one identity\<close>

lemma provisionOne_User: "User (provisionOne rem ctx templateRepos now user) = user"
  by (simp add: provisionOne_def provisionOrg_def provisionRepos_def Let_def
        split: sum.splits option.splits)

lemma provisionOne_created:
  assumes "CreateOrg rem user = Inr organization"
    and "InstallAppOnOrg rem (Login organization) = None \<or> run_token ctx \<noteq> None"
  shows "provisionOne rem ctx templateRepos now user =
     \<lparr>User = user, OrgName = Login organization, Status = ''success'', Error = [],
      Repos = map (createRepoReport rem organization) (enumerate 0 templateRepos),
      CompletedAt = now\<rparr>"
  using assms
  by (auto simp: provisionOne_def provisionOrg_def provisionRepos_def Let_def)

lemma createRepoReport_fields:
  "repo_Name (createRepoReport rem organization (i, rc)) = Template rc \<and>
   repo_Status (createRepoReport rem organization (i, rc)) =
     (if isl (CreateRepoFromTemplate rem organization i (Template rc) (IncludeAllBranches rc))
      then ''failed'' else ''success'')"
  by (simp split: sum.splits)

text \<open>
  Claim C5, as amended. For an identity whose organization is created and, under app
  authentication, whose app installation succeeds, the record has the status success
  however many repository creations fail; it has one report per template, in the order of
  the templates, each with the status of its own creation; and it is the same for every
  remote side that answers alike for this identity and its organization, whatever that
  side answers for other identities.
\<close>

theorem provisionOne_success_despite_repo_failures:
  assumes "CreateOrg rem user = Inr organization"
    and "InstallAppOnOrg rem (Login organization) = None \<or> run_token ctx \<noteq> None"
  shows "Status (provisionOne rem ctx templateRepos now user) = ''success'' \<and>
     User (provisionOne rem ctx templateRepos now user) = user \<and>
     length (Repos (provisionOne rem ctx templateRepos now user)) = length templateRepos \<and>
     (\<forall>i < length templateRepos.
        repo_Name (Repos (provisionOne rem ctx templateRepos now user) ! i)
          = Template (templateRepos ! i) \<and>
        repo_Status (Repos (provisionOne rem ctx templateRepos now user) ! i)
          = (if isl (CreateRepoFromTemplate rem organization i (Template (templateRepos ! i))
                       (IncludeAllBranches (templateRepos ! i)))
             then ''failed'' else ''success'')) \<and>
     (\<forall>rem'. CreateOrg rem' user = CreateOrg rem user \<and>
             InstallAppOnOrg rem' (Login organization) = InstallAppOnOrg rem (Login organization) \<and>
             CreateRepoFromTemplate rem' organization = CreateRepoFromTemplate rem organization
        \<longrightarrow> provisionOne rem' ctx templateRepos now user
              = provisionOne rem ctx templateRepos now user)"
proof -
  have r: "provisionOne rem ctx templateRepos now user =
     \<lparr>User = user, OrgName = Login organization, Status = ''success'', Error = [],
      Repos = map (createRepoReport rem organization) (enumerate 0 templateRepos),
      CompletedAt = now\<rparr>"
    using assms by (rule provisionOne_created)
  have reports: "\<forall>i < length templateRepos.
      map (createRepoReport rem organization) (enumerate 0 templateRepos) ! i
        = createRepoReport rem organization (i, templateRepos ! i)"
    by (simp add: nth_enumerate_eq)
  have same: "provisionOne rem' ctx templateRepos now user = provisionOne rem ctx templateRepos now user"
    if a: "CreateOrg rem' user = CreateOrg rem user"
      and b: "InstallAppOnOrg rem' (Login organization) = InstallAppOnOrg rem (Login organization)"
      and c: "CreateRepoFromTemplate rem' organization = CreateRepoFromTemplate rem organization"
    for rem'
  proof -
    have "provisionOne rem' ctx templateRepos now user =
       \<lparr>User = user, OrgName = Login organization, Status = ''success'', Error = [],
        Repos = map (createRepoReport rem' organization) (enumerate 0 templateRepos),
        CompletedAt = now\<rparr>"
      using assms a b by (intro provisionOne_created) simp_all
    moreover have "createRepoReport rem' organization p = createRepoReport rem organization p" for p
      by (cases p) (simp add: c)
    ultimately show ?thesis by (simp add: r)
  qed
  have c1: "Status (provisionOne rem ctx templateRepos now user) = ''success''"
    and c2: "User (provisionOne rem ctx templateRepos now user) = user"
    and c3: "length (Repos (provisionOne rem ctx templateRepos now user)) = length templateRepos"
    by (simp_all add: r)
  have c4: "\<forall>i < length templateRepos.
        repo_Name (Repos (provisionOne rem ctx templateRepos now user) ! i)
          = Template (templateRepos ! i) \<and>
        repo_Status (Repos (provisionOne rem ctx templateRepos now user) ! i)
          = (if isl (CreateRepoFromTemplate rem organization i (Template (templateRepos ! i))
                       (IncludeAllBranches (templateRepos ! i)))
             then ''failed'' else ''success'')"
    using reports createRepoReport_fields [of rem organization] by (simp add: r)
  from c1 c2 c3 c4 same show ?thesis by blast
qed

theorem provisionOne_success_despite_repo_failures_witness:
  "CreateOrg secondRepoFails ''alice'' = Inr (orgFor ''alice'') \<and>
   (InstallAppOnOrg secondRepoFails (Login (orgFor ''alice'')) = None \<or> run_token appRunCtx \<noteq> None) \<and>
   Status (provisionOne secondRepoFails appRunCtx twoTemplates 0 ''alice'') = ''success'' \<and>
   map repo_Status (Repos (provisionOne secondRepoFails appRunCtx twoTemplates 0 ''alice''))
     = [''success'', ''failed'']"
proof -
  have h1: "CreateOrg secondRepoFails ''alice'' = Inr (orgFor ''alice'')"
    by (simp add: secondRepoFails_def)
  have h2: "InstallAppOnOrg secondRepoFails (Login (orgFor ''alice'')) = None \<or> run_token appRunCtx \<noteq> None"
    by (simp add: secondRepoFails_def)
  have st: "Status (provisionOne secondRepoFails appRunCtx twoTemplates 0 ''alice'') = ''success''"
    using provisionOne_success_despite_repo_failures [OF h1 h2, of twoTemplates 0]
    by (rule conjunct1)
  have rs: "map repo_Status (Repos (provisionOne secondRepoFails appRunCtx twoTemplates 0 ''alice''))
     = [''success'', ''failed'']"
    by (simp add: provisionOne_def provisionOrg_def provisionRepos_def secondRepoFails_def
          appRunCtx_def twoTemplates_def Let_def)
  from h1 h2 st rs show ?thesis by (intro conjI)
qed

text \<open>
  Claim C5 as stated fails: the organization of alice is created, the installation of the
  app fails, and the record has the status failed and no report of any repository.
\<close>

theorem provisionOne_install_failure_counterexample:
  "CreateOrg installFails ''alice'' = Inr (orgFor ''alice'') \<and>
   Status (provisionOne installFails appRunCtx twoTemplates 0 ''alice'') = ''failed'' \<and>
   Repos (provisionOne installFails appRunCtx twoTemplates 0 ''alice'') = []"
  by (simp add: provisionOne_def provisionOrg_def installFails_def appRunCtx_def Let_def)

section \<open>The retry of the repository creation\<close>

declare createRepoFromTemplateWithRetry.simps [simp del]














section \<open>The worker pool\<close>

lemma held_update:
  "i < length ws \<Longrightarrow>
   mset (concat (map held (ws[i := w]))) + mset (held (ws ! i))
     = mset (concat (map held ws)) + mset (held w)"
proof (induction ws arbitrary: i)
  case Nil
  then show ?case by simp
next
  case (Cons a ws)
  show ?case
  proof (cases i)
    case 0
    then show ?thesis by simp
  next
    case (Suc j)
    with Cons.prems have "j < length ws" by simp
    from Cons.IH [OF this] show ?thesis using Suc by (simp add: ac_simps)
  qed
qed

lemma weight_update:
  "i < length ws \<Longrightarrow>
   sum_list (map workerWeight (ws[i := w])) + workerWeight (ws ! i)
     = sum_list (map workerWeight ws) + workerWeight w"
proof (induction ws arbitrary: i)
  case Nil
  then show ?case by simp
next
  case (Cons a ws)
  show ?case
  proof (cases i)
    case 0
    then show ?thesis by simp
  next
    case (Suc j)
    with Cons.prems have "j < length ws" by simp
    from Cons.IH [OF this] show ?thesis using Suc by simp
  qed
qed

lemma startPool_inv: "poolInv users n (startPool n users)"
  by (simp add: poolInv_def startPool_def accounted_def heldUsers_def published_def)

lemma held_update_same:
  assumes "i < length ws" and "held (ws ! i) = held w"
  shows "mset (concat (map held (ws[i := w]))) = mset (concat (map held ws))"
  using held_update [OF assms(1), of w] assms(2) by simp

lemma held_update_take:
  assumes "i < length ws" and "held (ws ! i) = []" and "held w = [u]"
  shows "mset (concat (map held (ws[i := w]))) = mset (concat (map held ws)) + {#u#}"
  using held_update [OF assms(1), of w] assms(2,3) by simp

lemma held_update_drop:
  assumes "i < length ws" and "held (ws ! i) = [u]" and "held w = []"
  shows "mset (concat (map held (ws[i := w]))) + {#u#} = mset (concat (map held ws))"
  using held_update [OF assms(1), of w] assms(2,3) by simp

lemma accounted_dequeue:
  assumes "dequeue i s = Some s'"
  shows "accounted s' = accounted s"
proof -
  from assms have i: "i < length (workers s)" and w: "workers s ! i = Waiting"
    by (auto simp: dequeue_def split: if_splits)
  show ?thesis
  proof (cases "orgChan s")
    case Nil
    with assms i w have "s' = s\<lparr>workers := (workers s)[i := Stopped]\<rparr>"
      by (auto simp: dequeue_def split: if_splits)
    then show ?thesis
      using held_update_same [OF i, of Stopped] w
      by (simp add: accounted_def heldUsers_def published_def)
  next
    case (Cons user rest)
    with assms i w have "s' = s\<lparr>orgChan := rest, workers := (workers s)[i := Received user]\<rparr>"
      by (auto simp: dequeue_def)
    then show ?thesis
      using held_update_take [OF i, of "Received user" user] w Cons
      by (simp add: accounted_def heldUsers_def published_def)
  qed
qed

lemma accounted_check:
  assumes "check i t s = Some s'"
  shows "accounted s' \<subseteq># accounted s \<and> (ctxErr s = None \<longrightarrow> accounted s' = accounted s)"
proof -
  from assms obtain user where i: "i < length (workers s)" and w: "workers s ! i = Received user"
    by (auto simp: check_def split: if_splits worker.splits)
  show ?thesis
  proof (cases "ctxErr s = None")
    case True
    with assms i w have "s' = s\<lparr>workers := (workers s)[i := Claimed user t]\<rparr>"
      by (auto simp: check_def)
    then have "accounted s' = accounted s"
      using held_update_same [OF i, of "Claimed user t"] w
      by (simp add: accounted_def heldUsers_def published_def)
    then show ?thesis by simp
  next
    case False
    with assms i w have "s' = s\<lparr>workers := (workers s)[i := Stopped]\<rparr>"
      by (auto simp: check_def)
    then have "accounted s' + {#user#} = accounted s"
      using held_update_drop [OF i, of user Stopped] w
      by (simp add: accounted_def heldUsers_def published_def)
    then have "accounted s' \<subseteq># accounted s"
      by (metis mset_subset_eq_add_left)
    with False show ?thesis by auto
  qed
qed

lemma accounted_publish:
  assumes "publish cfg i s = Some s'"
  shows "accounted s' = accounted s"
proof -
  from assms obtain user t where i: "i < length (workers s)" and w: "workers s ! i = Claimed user t"
    by (auto simp: publish_def split: if_splits worker.splits)
  with assms have "s' = s\<lparr>resultsChan := resultsChan s @
        [provisionOne (cfg_remote cfg (ctxErr s)) (cfg_ctx cfg) (cfg_templateRepos cfg) t user],
      workers := (workers s)[i := Waiting]\<rparr>"
    by (auto simp: publish_def)
  then show ?thesis
    using held_update_drop [OF i, of user Waiting] w
    by (simp add: accounted_def heldUsers_def published_def provisionOne_User)
qed

lemma accounted_collect:
  assumes "collect s = Some s'"
  shows "accounted s' = accounted s"
  using assms
  by (auto simp: collect_def accounted_def heldUsers_def published_def
           split: if_splits list.splits)

lemma accounted_step:
  assumes "step cfg e s = Some s'"
  shows "accounted s' \<subseteq># accounted s \<and> (ctxErr s = None \<longrightarrow> accounted s' = accounted s)"
proof (cases e)
  case Send
  with assms show ?thesis
    by (auto simp: accounted_def heldUsers_def published_def split: list.splits)
next
  case CloseOrgChan
  with assms show ?thesis
    by (auto simp: accounted_def heldUsers_def published_def split: if_splits)
next
  case (Cancel x)
  with assms show ?thesis
    by (auto simp: accounted_def heldUsers_def published_def split: if_splits)
next
  case (Dequeue i)
  with assms show ?thesis by (simp add: accounted_dequeue)
next
  case (Check i t)
  with assms show ?thesis by (simp add: accounted_check)
next
  case (Publish i)
  with assms show ?thesis by (simp add: accounted_publish)
next
  case CloseResults
  with assms show ?thesis
    by (auto simp: accounted_def heldUsers_def published_def split: if_splits)
next
  case Collect
  with assms show ?thesis by (simp add: accounted_collect)
next
  case Timeout
  with assms show ?thesis
    by (auto simp: accounted_def heldUsers_def published_def split: if_splits)
qed

lemma step_ctxErr:
  assumes "step cfg e s = Some s'" and "ctxErr s' = None"
  shows "ctxErr s = None"
  using assms
  by (cases e)
     (auto simp: dequeue_def check_def publish_def collect_def
           split: if_splits list.splits worker.splits)

lemma step_simple_fields:
  assumes "step cfg e s = Some s'"
  shows "total s' = total s \<and> length (workers s') = length (workers s)"
  using assms
  by (cases e)
     (auto simp: dequeue_def check_def publish_def collect_def
           split: if_splits list.splits worker.splits)

lemma step_resultCount:
  assumes "step cfg e s = Some s'" and "resultCount s = length (results s)"
  shows "resultCount s' = length (results s')"
  using assms
  by (cases e)
     (auto simp: dequeue_def check_def publish_def collect_def
           split: if_splits list.splits worker.splits)

lemma step_orgClosed:
  assumes "step cfg e s = Some s'" and "orgClosed s \<longrightarrow> toSend s = []"
  shows "orgClosed s' \<longrightarrow> toSend s' = []"
  using assms
  by (cases e)
     (auto simp: dequeue_def check_def publish_def collect_def
           split: if_splits list.splits worker.splits)

lemma all_Stopped_nth:
  "list_all (\<lambda>w. w = Stopped) ws \<Longrightarrow> i < length ws \<Longrightarrow> ws ! i = Stopped"
  by (simp add: list_all_length)

lemma step_resultsClosed:
  assumes "step cfg e s = Some s'"
    and "resultsClosed s \<longrightarrow> orgClosed s \<and> list_all (\<lambda>w. w = Stopped) (workers s)"
  shows "resultsClosed s' \<longrightarrow> orgClosed s' \<and> list_all (\<lambda>w. w = Stopped) (workers s')"
proof (cases e)
  case (Dequeue i)
  with assms show ?thesis
    by (auto simp: dequeue_def split: if_splits list.splits dest: all_Stopped_nth)
next
  case (Check i t)
  with assms show ?thesis
    by (auto simp: check_def split: if_splits worker.splits dest: all_Stopped_nth)
next
  case (Publish i)
  with assms show ?thesis
    by (auto simp: publish_def split: if_splits worker.splits dest: all_Stopped_nth)
qed (use assms in \<open>auto simp: collect_def split: if_splits list.splits\<close>)

lemma Stopped_in_update:
  "Stopped \<in> set (ws[i := w]) \<Longrightarrow> w \<noteq> Stopped \<Longrightarrow> Stopped \<in> set ws"
  using set_update_subset_insert [of ws i w] by auto

lemma step_Stopped:
  assumes "step cfg e s = Some s'"
    and "ctxErr s = None"
    and "orgClosed s \<longrightarrow> toSend s = []"
    and "Stopped \<in> set (workers s) \<longrightarrow> orgChan s = [] \<and> orgClosed s"
  shows "Stopped \<in> set (workers s') \<longrightarrow> orgChan s' = [] \<and> orgClosed s'"
proof (cases e)
  case Send
  with assms show ?thesis by (auto split: list.splits)
next
  case CloseOrgChan
  with assms show ?thesis by (auto split: if_splits)
next
  case (Cancel x)
  with assms show ?thesis by (auto split: if_splits)
next
  case (Dequeue i)
  with assms show ?thesis
    by (auto simp: dequeue_def split: if_splits list.splits dest: Stopped_in_update)
next
  case (Check i t)
  with assms show ?thesis
    by (auto simp: check_def split: if_splits worker.splits dest: Stopped_in_update)
next
  case (Publish i)
  with assms show ?thesis
    by (auto simp: publish_def split: if_splits worker.splits dest: Stopped_in_update)
next
  case CloseResults
  with assms show ?thesis by (auto split: if_splits)
next
  case Collect
  with assms show ?thesis by (auto simp: collect_def split: if_splits list.splits)
next
  case Timeout
  with assms show ?thesis by (auto split: if_splits)
qed

lemma poolInv_step:
  assumes inv: "poolInv users n s" and st: "step cfg e s = Some s'"
  shows "poolInv users n s'"
proof -
  from inv have a: "total s = length users" and b: "length (workers s) = n"
    and c: "resultCount s = length (results s)"
    and d: "orgClosed s \<longrightarrow> toSend s = []"
    and e: "resultsClosed s \<longrightarrow> orgClosed s \<and> list_all (\<lambda>w. w = Stopped) (workers s)"
    and f: "accounted s \<subseteq># mset users"
    and g: "ctxErr s = None \<longrightarrow> accounted s = mset users"
    and h: "ctxErr s = None \<longrightarrow> Stopped \<in> set (workers s) \<longrightarrow> orgChan s = [] \<and> orgClosed s"
    by (simp_all add: poolInv_def)
  have a': "total s' = length users" and b': "length (workers s') = n"
    using step_simple_fields [OF st] a b by simp_all
  have c': "resultCount s' = length (results s')"
    using st c by (rule step_resultCount)
  have d': "orgClosed s' \<longrightarrow> toSend s' = []"
    using st d by (rule step_orgClosed)
  have e': "resultsClosed s' \<longrightarrow> orgClosed s' \<and> list_all (\<lambda>w. w = Stopped) (workers s')"
    using st e by (rule step_resultsClosed)
  have f': "accounted s' \<subseteq># mset users"
    using accounted_step [OF st] f by (meson subset_mset.order_trans)
  have gh': "ctxErr s' = None \<longrightarrow>
        accounted s' = mset users \<and>
        (Stopped \<in> set (workers s') \<longrightarrow> orgChan s' = [] \<and> orgClosed s')"
  proof
    assume "ctxErr s' = None"
    with st have live: "ctxErr s = None" by (rule step_ctxErr)
    then have "accounted s' = mset users"
      using accounted_step [OF st] g by simp
    moreover have h0: "Stopped \<in> set (workers s) \<longrightarrow> orgChan s = [] \<and> orgClosed s"
      using h live by simp
    have "Stopped \<in> set (workers s') \<longrightarrow> orgChan s' = [] \<and> orgClosed s'"
      using st live d h0 by (rule step_Stopped)
    ultimately show "accounted s' = mset users \<and>
        (Stopped \<in> set (workers s') \<longrightarrow> orgChan s' = [] \<and> orgClosed s')" by simp
  qed
  from a' b' c' d' e' f' gh' show ?thesis
    unfolding poolInv_def by (intro conjI)
qed

lemma poolInv_run:
  "poolInv users n s \<Longrightarrow> run cfg evs s = Some s' \<Longrightarrow> poolInv users n s'"
proof (induction evs arbitrary: s)
  case Nil
  then show ?case by simp
next
  case (Cons e evs)
  from Cons.prems(2) obtain s1 where s1: "step cfg e s = Some s1" and rest: "run cfg evs s1 = Some s'"
    by (auto split: option.splits)
  from Cons.prems(1) s1 have "poolInv users n s1" by (rule poolInv_step)
  then show ?case using rest by (rule Cons.IH)
qed

lemma poolInv_reachable:
  "run cfg evs (startPool n users) = Some s \<Longrightarrow> poolInv users n s"
  using startPool_inv by (rule poolInv_run)

lemma held_all_Stopped:
  "list_all (\<lambda>w. w = Stopped) ws \<Longrightarrow> concat (map held ws) = []"
  by (induction ws) auto

lemma closed_complete:
  assumes inv: "poolInv users n s" and closed: "resultsClosed s" and live: "ctxErr s = None"
    and n: "0 < n \<or> users = []"
  shows "mset (map User (published s)) = mset users"
proof -
  from inv closed have oc: "orgClosed s" and stopped: "list_all (\<lambda>w. w = Stopped) (workers s)"
    by (simp_all add: poolInv_def)
  from inv oc have ts: "toSend s = []" by (simp add: poolInv_def)
  from inv live have acc: "accounted s = mset users" by (simp add: poolInv_def)
  have hu: "heldUsers s = []"
    using stopped by (simp add: heldUsers_def held_all_Stopped)
  show ?thesis
  proof (cases "users = []")
    case True
    with acc show ?thesis by (simp add: accounted_def)
  next
    case False
    with n inv have "workers s \<noteq> []" by (auto simp: poolInv_def)
    then obtain w where "w \<in> set (workers s)" by (cases "workers s") auto
    with stopped have "Stopped \<in> set (workers s)" by (auto simp: list_all_iff)
    with inv live have "orgChan s = []" by (simp add: poolInv_def)
    with acc ts hu show ?thesis by (simp add: accounted_def)
  qed
qed

lemma stepsLeft_dequeue:
  assumes "dequeue i s = Some s'"
  shows "Suc (stepsLeft s') = stepsLeft s"
proof -
  from assms have i: "i < length (workers s)" and w: "workers s ! i = Waiting"
    by (auto simp: dequeue_def split: if_splits)
  show ?thesis
  proof (cases "orgChan s")
    case Nil
    with assms i w have "s' = s\<lparr>workers := (workers s)[i := Stopped]\<rparr>"
      by (auto simp: dequeue_def split: if_splits)
    then show ?thesis
      using weight_update [OF i, of Stopped] w by (simp add: stepsLeft_def)
  next
    case (Cons user rest)
    with assms i w have "s' = s\<lparr>orgChan := rest, workers := (workers s)[i := Received user]\<rparr>"
      by (auto simp: dequeue_def)
    then show ?thesis
      using weight_update [OF i, of "Received user"] w Cons by (simp add: stepsLeft_def)
  qed
qed

lemma stepsLeft_check:
  assumes "check i t s = Some s'"
  shows "stepsLeft s' < stepsLeft s"
proof -
  from assms obtain user where i: "i < length (workers s)" and w: "workers s ! i = Received user"
    by (auto simp: check_def split: if_splits worker.splits)
  show ?thesis
  proof (cases "ctxErr s = None")
    case True
    with assms i w have "s' = s\<lparr>workers := (workers s)[i := Claimed user t]\<rparr>"
      by (auto simp: check_def)
    then show ?thesis
      using weight_update [OF i, of "Claimed user t"] w by (simp add: stepsLeft_def)
  next
    case False
    with assms i w have "s' = s\<lparr>workers := (workers s)[i := Stopped]\<rparr>"
      by (auto simp: check_def)
    then show ?thesis
      using weight_update [OF i, of Stopped] w by (simp add: stepsLeft_def)
  qed
qed

lemma stepsLeft_publish:
  assumes "publish cfg i s = Some s'"
  shows "stepsLeft s' < stepsLeft s"
proof -
  from assms obtain user t where i: "i < length (workers s)" and w: "workers s ! i = Claimed user t"
    by (auto simp: publish_def split: if_splits worker.splits)
  with assms have "s' = s\<lparr>resultsChan := resultsChan s @
        [provisionOne (cfg_remote cfg (ctxErr s)) (cfg_ctx cfg) (cfg_templateRepos cfg) t user],
      workers := (workers s)[i := Waiting]\<rparr>"
    by (auto simp: publish_def)
  then show ?thesis
    using weight_update [OF i, of Waiting] w by (simp add: stepsLeft_def)
qed

lemma stepsLeft_step:
  assumes "step cfg e s = Some s'"
  shows "stepsLeft s' + (if poolEvent e then 1 else 0) \<le> stepsLeft s"
proof (cases e)
  case Send
  with assms show ?thesis by (auto simp: stepsLeft_def split: list.splits)
next
  case CloseOrgChan
  with assms show ?thesis by (auto simp: stepsLeft_def split: if_splits)
next
  case (Cancel x)
  with assms show ?thesis by (auto simp: stepsLeft_def split: if_splits)
next
  case (Dequeue i)
  with assms show ?thesis using stepsLeft_dequeue [of i s s'] by simp
next
  case (Check i t)
  with assms show ?thesis using stepsLeft_check [of i t s s'] by simp
next
  case (Publish i)
  with assms show ?thesis using stepsLeft_publish [of cfg i s s'] by simp
next
  case CloseResults
  with assms show ?thesis by (auto simp: stepsLeft_def split: if_splits)
next
  case Collect
  with assms show ?thesis by (auto simp: stepsLeft_def collect_def split: if_splits list.splits)
next
  case Timeout
  with assms show ?thesis by (auto simp: stepsLeft_def split: if_splits)
qed

lemma stepsLeft_run:
  "run cfg evs s = Some s' \<Longrightarrow> stepsLeft s' + length (filter poolEvent evs) \<le> stepsLeft s"
proof (induction evs arbitrary: s)
  case Nil
  then show ?case by simp
next
  case (Cons e evs)
  from Cons.prems obtain s1 where s1: "step cfg e s = Some s1" and rest: "run cfg evs s1 = Some s'"
    by (auto split: option.splits)
  from Cons.IH [OF rest] stepsLeft_step [OF s1] show ?case by (simp split: if_splits)
qed

lemma stepsLeft_startPool: "stepsLeft (startPool n users) = 5 * length users + n + 2"
  by (simp add: stepsLeft_def startPool_def sum_list_replicate)

lemma not_all_Stopped:
  "\<not> list_all (\<lambda>w. w = Stopped) ws \<Longrightarrow> \<exists>i < length ws. ws ! i \<noteq> Stopped"
  by (auto simp: list_all_length)

lemma pool_progress:
  assumes "orgClosed s \<longrightarrow> toSend s = []" and "\<not> resultsClosed s"
  shows "\<exists>e. poolEvent e \<and> step cfg e s \<noteq> None"
proof (cases "toSend s")
  case (Cons user rest)
  then have "step cfg Send s \<noteq> None" by simp
  then show ?thesis using poolEvent.simps(1) by blast
next
  case Nil
  show ?thesis
  proof (cases "orgClosed s")
    case False
    with Nil have "step cfg CloseOrgChan s \<noteq> None" by simp
    then show ?thesis using poolEvent.simps(2) by blast
  next
    case True
    show ?thesis
    proof (cases "list_all (\<lambda>w. w = Stopped) (workers s)")
      case True
      with \<open>orgClosed s\<close> assms(2) have "step cfg CloseResults s \<noteq> None" by simp
      then show ?thesis using poolEvent.simps(6) by blast
    next
      case False
      then obtain i where i: "i < length (workers s)" and w: "workers s ! i \<noteq> Stopped"
        using not_all_Stopped by blast
      show ?thesis
      proof (cases "workers s ! i")
        case Waiting
        with i True have "step cfg (Dequeue i) s \<noteq> None"
          by (simp add: dequeue_def split: list.splits)
        then show ?thesis using poolEvent.simps(3) by blast
      next
        case (Received user)
        with i have "step cfg (Check i 0) s \<noteq> None"
          by (simp add: check_def)
        then show ?thesis using poolEvent.simps(4) by blast
      next
        case (Claimed user t)
        with i have "step cfg (Publish i) s \<noteq> None"
          by (simp add: publish_def)
        then show ?thesis using poolEvent.simps(5) by blast
      next
        case Stopped
        with w show ?thesis by simp
      qed
    qed
  qed
qed

lemma published_length:
  assumes "poolInv users n s"
  shows "length (published s) \<le> length users"
proof -
  from assms have "accounted s \<subseteq># mset users" by (simp add: poolInv_def)
  then have "size (accounted s) \<le> size (mset users)" by (rule size_mset_mono)
  then show ?thesis by (simp add: accounted_def)
qed

text \<open>
  Claim C1. Take any number \<open>n\<close> of workers, at least one unless there is no user, and
  any interleaving \<open>evs\<close> of the goroutines' steps from the start of the pool. When the
  results channel has been closed and the context is not done, the published records are
  as many as the users, one for each user. Before the results channel is closed some step
  of the main goroutine or of a worker can always be taken, and the pool never takes more
  than \<open>5 * length users + n + 2\<close> such steps, so the close is reached. Whether the
  context is done or not, there are never more records than users.
\<close>

theorem pool_completeness:
  assumes "run cfg evs (startPool n users) = Some s" and "0 < n \<or> users = []"
  shows "(resultsClosed s \<and> ctxErr s = None \<longrightarrow>
            mset (map User (published s)) = mset users \<and>
            length (published s) = length users) \<and>
         (\<not> resultsClosed s \<longrightarrow> (\<exists>e. poolEvent e \<and> step cfg e s \<noteq> None)) \<and>
         length (filter poolEvent evs) \<le> 5 * length users + n + 2 \<and>
         length (published s) \<le> length users"
proof -
  have inv: "poolInv users n s"
    using assms(1) by (rule poolInv_reachable)
  have complete: "mset (map User (published s)) = mset users \<and> length (published s) = length users"
    if "resultsClosed s" and "ctxErr s = None"
  proof -
    have m: "mset (map User (published s)) = mset users"
      using inv that assms(2) by (rule closed_complete)
    have "length (published s) = size (mset (map User (published s)))" by simp
    also have "\<dots> = size (mset users)" by (simp only: m)
    finally have "length (published s) = length users" by simp
    with m show ?thesis by (intro conjI)
  qed
  have progress: "\<exists>e. poolEvent e \<and> step cfg e s \<noteq> None" if "\<not> resultsClosed s"
  proof -
    from inv have "orgClosed s \<longrightarrow> toSend s = []" by (simp add: poolInv_def)
    then show ?thesis using that by (rule pool_progress)
  qed
  have bound: "length (filter poolEvent evs) \<le> 5 * length users + n + 2"
    using stepsLeft_run [OF assms(1)] by (simp add: stepsLeft_startPool)
  have le: "length (published s) \<le> length users"
    using inv by (rule published_length)
  from complete progress bound le show ?thesis by blast
qed

theorem pool_completeness_witness:
  "run demoCfg fullSchedule (startPool 2 demoUsers) \<noteq> None \<and>
   (0 < (2::nat) \<or> demoUsers = []) \<and>
   resultsClosed (the (run demoCfg fullSchedule (startPool 2 demoUsers))) \<and>
   ctxErr (the (run demoCfg fullSchedule (startPool 2 demoUsers))) = None \<and>
   map User (published (the (run demoCfg fullSchedule (startPool 2 demoUsers)))) = [''bob'', ''alice''] \<and>
   map Status (published (the (run demoCfg fullSchedule (startPool 2 demoUsers)))) = [''failed'', ''success''] \<and>
   length (published (the (run demoCfg fullSchedule (startPool 2 demoUsers)))) = length demoUsers"
proof -
  let ?s = "the (run demoCfg fullSchedule (startPool 2 demoUsers))"
  have ne: "run demoCfg fullSchedule (startPool 2 demoUsers) \<noteq> None" by code_simp
  then have h1: "run demoCfg fullSchedule (startPool 2 demoUsers) = Some ?s" by simp
  have h2: "0 < (2::nat) \<or> demoUsers = []" by simp
  have c: "resultsClosed ?s" by code_simp
  have l: "ctxErr ?s = None" by code_simp
  have u: "map User (published ?s) = [''bob'', ''alice'']" by code_simp
  have st: "map Status (published ?s) = [''failed'', ''success'']" by code_simp
  have "length (published ?s) = length demoUsers"
    using pool_completeness [OF h1 h2] c l by blast
  with ne h2 c l u st show ?thesis by (intro conjI)
qed




lemma numWorkers_pos: "0 < numWorkers (length users) \<or> users = []"
  by (simp add: numWorkers_def)

lemma collect_enabled:
  assumes "orgClosed s" and "returned s = None" and "resultsChan s \<noteq> [] \<or> resultsClosed s"
  shows "step cfg Collect s \<noteq> None"
  using assms by (auto simp: collect_def split: list.splits)

text \<open>
  Claim C8, as amended. Take any interleaving from the start of \<^verbatim>\<open>CreateLabEnvironment\<close>'s
  pool up to a state in which the results channel is closed and empty and the function
  has not returned. The branch of the collecting loop that receives from the results
  channel can be taken; the count it compares is the number of published records; on
  equality it returns \<^verbatim>\<open>nil\<close>, whatever the statuses of the records, and on a mismatch
  it returns the error of the context, which is then not \<^verbatim>\<open>nil\<close>. The branch of the done
  context can be taken in that state exactly when the context is done, and returns the
  context's error without any comparison.
\<close>

theorem collect_count_check:
  assumes "run cfg evs (CreateLabEnvironment_start users) = Some s"
    and "resultsClosed s" and "resultsChan s = []" and "returned s = None"
  shows "resultCount s = length (published s) \<and>
         step cfg Collect s
           = Some (s\<lparr>returned := Some (if resultCount s = length users then None else ctxErr s)\<rparr>) \<and>
         (resultCount s = length users \<or> (\<exists>e. ctxErr s = Some e)) \<and>
         step cfg Timeout s
           = (if ctxErr s = None then None else Some (s\<lparr>returned := Some (ctxErr s)\<rparr>))"
proof -
  let ?n = "numWorkers (length users)"
  have inv: "poolInv users ?n s"
    using assms(1) unfolding CreateLabEnvironment_start_def by (rule poolInv_reachable)
  from inv assms(2) have oc: "orgClosed s" by (simp add: poolInv_def)
  from inv have tot: "total s = length users" and rc: "resultCount s = length (results s)"
    by (simp_all add: poolInv_def)
  have count: "resultCount s = length (published s)"
    using rc assms(3) by (simp add: published_def)
  have closed_branch: "step cfg Collect s
           = Some (s\<lparr>returned := Some (if resultCount s = length users then None else ctxErr s)\<rparr>)"
    using oc assms(2,3,4) tot by (simp add: collect_def)
  have mismatch: "resultCount s = length users \<or> (\<exists>e. ctxErr s = Some e)"
  proof (cases "ctxErr s")
    case None
    have "mset (map User (published s)) = mset users"
      using inv assms(2) None numWorkers_pos by (rule closed_complete)
    then have "size (mset (map User (published s))) = size (mset users)" by (simp only:)
    then have "length (published s) = length users" by simp
    with count show ?thesis by simp
  next
    case (Some e)
    then show ?thesis by simp
  qed
  have done_branch: "step cfg Timeout s
           = (if ctxErr s = None then None else Some (s\<lparr>returned := Some (ctxErr s)\<rparr>))"
    using oc assms(4) by simp
  from count closed_branch mismatch done_branch show ?thesis by (intro conjI)
qed

theorem collect_count_check_witness:
  "run demoCfg fullSchedule (CreateLabEnvironment_start demoUsers) = Some completedAtClose \<and>
   resultsClosed completedAtClose \<and> resultsChan completedAtClose = [] \<and>
   returned completedAtClose = None \<and>
   resultCount completedAtClose = 2 \<and> failureCount completedAtClose = 1 \<and>
   length demoUsers = 2 \<and>
   step demoCfg Collect completedAtClose = Some (completedAtClose\<lparr>returned := Some None\<rparr>) \<and>
   step demoCfg Timeout completedAtClose = None \<and>
   run demoCfg cancelledSchedule (CreateLabEnvironment_start demoUsers) = Some cancelledAtClose \<and>
   resultsClosed cancelledAtClose \<and> resultsChan cancelledAtClose = [] \<and>
   returned cancelledAtClose = None \<and>
   resultCount cancelledAtClose = 1 \<and>
   step demoCfg Collect cancelledAtClose
     = Some (cancelledAtClose\<lparr>returned := Some (Some DeadlineExceeded)\<rparr>)"
proof -
  have ne: "run demoCfg fullSchedule (CreateLabEnvironment_start demoUsers) \<noteq> None"
    by code_simp
  then have a1: "run demoCfg fullSchedule (CreateLabEnvironment_start demoUsers) = Some completedAtClose"
    by (simp add: completedAtClose_def)
  have a2: "resultsClosed completedAtClose" by code_simp
  have a3: "resultsChan completedAtClose = []" by code_simp
  have a4: "returned completedAtClose = None" by code_simp
  have a5: "resultCount completedAtClose = 2" by code_simp
  have a6: "failureCount completedAtClose = 1" by code_simp
  have a7: "ctxErr completedAtClose = None" by code_simp
  have len: "length demoUsers = 2" by (simp add: demoUsers_def)
  note full = collect_count_check [OF a1 a2 a3 a4]
  have a8: "step demoCfg Collect completedAtClose = Some (completedAtClose\<lparr>returned := Some None\<rparr>)"
    using full [THEN conjunct2, THEN conjunct1] unfolding a5 len by simp
  have a9: "step demoCfg Timeout completedAtClose = None"
    using full [THEN conjunct2, THEN conjunct2, THEN conjunct2] unfolding a7 by simp
  have ne': "run demoCfg cancelledSchedule (CreateLabEnvironment_start demoUsers) \<noteq> None"
    by code_simp
  then have b1: "run demoCfg cancelledSchedule (CreateLabEnvironment_start demoUsers) = Some cancelledAtClose"
    by (simp add: cancelledAtClose_def)
  have b2: "resultsClosed cancelledAtClose" by code_simp
  have b3: "resultsChan cancelledAtClose = []" by code_simp
  have b4: "returned cancelledAtClose = None" by code_simp
  have b5: "resultCount cancelledAtClose = 1" by code_simp
  have b7: "ctxErr cancelledAtClose = Some DeadlineExceeded" by code_simp
  note cancelled = collect_count_check [OF b1 b2 b3 b4]
  have b8: "step demoCfg Collect cancelledAtClose
     = Some (cancelledAtClose\<lparr>returned := Some (Some DeadlineExceeded)\<rparr>)"
    using cancelled [THEN conjunct2, THEN conjunct1] unfolding b5 len b7 by simp
  from a1 a2 a3 a4 a5 a6 len a8 a9 b1 b2 b3 b4 b5 b8 show ?thesis by (intro conjI)
qed

text \<open>
  Claim C8 as stated fails: in the run without failure of the pool, cancelled just after
  the results channel was closed and both records were collected, the counts are equal,
  and the collecting loop can take the branch of the done context and return the
  context's error.
\<close>

theorem collect_late_cancel_counterexample:
  "resultsClosed lateCancel \<and> resultsChan lateCancel = [] \<and> returned lateCancel = None \<and>
   resultCount lateCancel = length demoUsers \<and>
   step demoCfg Timeout lateCancel \<noteq> None \<and>
   returned (the (step demoCfg Timeout lateCancel)) = Some (Some Canceled) \<and>
   returned (the (step demoCfg Collect lateCancel)) = Some None"
  by code_simp










end
